theory Spec2Isabelle
  imports Complex_Main "HOL-Library.Signed_Division" "HOL-Library.AList"
begin

section \<open>Data model\<close>

text \<open>
  The program is the Go command \<^verbatim>\<open>speedtest-cli\<close>. The repository holds two versions of its
  one source file; the model follows the later one, which measures the download speed. The
  functions \<^verbatim>\<open>distance\<close> and \<^verbatim>\<open>getClosestServers\<close> are the same in both. Its values are
  modelled as follows.
  \<^item> \<^verbatim>\<open>float64\<close> is idealised as \<open>real\<close>: rounding, NaN, infinities and signed zeros are
    not represented. \<^verbatim>\<open>math.Sin\<close>, \<^verbatim>\<open>math.Cos\<close>, \<^verbatim>\<open>math.Sqrt\<close> are the real functions.
  \<^item> \<^verbatim>\<open>time.Duration\<close> and \<^verbatim>\<open>int64\<close> are \<open>int\<close>; additions of durations wrap around at
    64 bits (\<open>wrap64\<close>), integer division truncates towards zero (\<open>sdiv\<close>).
  \<^item> \<^verbatim>\<open>[]byte\<close> and \<^verbatim>\<open>string\<close> are character lists; a nil slice is the empty list.
  \<^item> \<^verbatim>\<open>error\<close> is a message; \<^verbatim>\<open>log.Fatal\<close> and a run-time panic end the program and are the
    left summand of every result.
  \<^item> The network, the clock and the libraries \<^verbatim>\<open>encoding/xml\<close> and \<^verbatim>\<open>net/url\<close> are inputs,
    collected in the record \<open>world\<close>. In particular the program writes
    \<^verbatim>\<open>time.Since(time.Now())\<close> where it wants a duration to start from; its value, the time
    between two consecutive readings of the clock, is an input as well.
  \<^item> Goroutines are modelled by schedules: the order in which the tasks take a lock, or
    the sequence of the moves of the consumers.
  \<^item> Progress output on standard output and the command line flags are not modelled.
\<close>

type_synonym float64 = real
type_synonym Duration = int
type_synonym bytes = string

datatype error = Error string

datatype abort =
    Fatal error \<comment> \<open>\<^verbatim>\<open>log.Fatal(err)\<close>: the message is printed, exit status 1\<close>
  | Panic string \<comment> \<open>run-time panic (index out of range), exit status 2\<close>

record Point =
  Point_Lat :: float64
  Point_Long :: float64

record Client =
  Client_Ip :: string
  Client_Isp :: string
  Client_Lat :: float64
  Client_Long :: float64

record Config =
  Config_XMLName :: string
  LicenseKey :: string
  Clients :: "Client list"
  Times :: "string list"
  Download :: "string list"
  Upload :: "string list"

record Server =
  Name :: string
  Sponsor :: string
  Country :: string
  Lat :: float64
  Long :: float64
  Url :: string
  Host :: string
  Distance :: float64
  Ping :: int

record ServerGroup_item =
  Servers :: "Server list"

record Servers =
  Servers_XMLName :: string
  ServerGroup :: "ServerGroup_item list"

text \<open>The fields of \<^verbatim>\<open>url.URL\<close>; the program reads and writes \<open>Path\<close> only.\<close>

record URL =
  Scheme :: string
  URL_Host :: string
  Path :: string
  RawQuery :: string
  Fragment :: string

definition Config_zero :: Config where
  "Config_zero = \<lparr>Config_XMLName = [], LicenseKey = [], Clients = [], Times = [],
     Download = [], Upload = []\<rparr>"

definition Servers_zero :: Servers where
  "Servers_zero = \<lparr>Servers_XMLName = [], ServerGroup = []\<rparr>"

definition Server_zero :: Server where
  "Server_zero = \<lparr>Name = [], Sponsor = [], Country = [], Lat = 0, Long = 0, Url = [],
     Host = [], Distance = 0, Ping = 0\<rparr>"

subsection \<open>Constants\<close>

definition bytesPerMegabit :: float64 where
  "bytesPerMegabit = 131072"

definition concurrentDownloads :: nat where
  "concurrentDownloads = 6"

definition duplicateDownloads :: nat where
  "duplicateDownloads = 4"

definition configUrl :: string where
  "configUrl = ''http://www.speedtest.net/speedtest-config.php''"

definition serversUrl :: string where
  "serversUrl = ''http://www.speedtest.net/speedtest-servers.php''"

definition degToRad :: float64 where
  "degToRad = pi / 180"

definition earthsRadiusKm :: float64 where
  "earthsRadiusKm = 6371"

definition nanoSecPerMilli :: int where
  "nanoSecPerMilli = 1000000"

definition timesToRunLatency :: nat where
  "timesToRunLatency = 5"

definition downloadSizes :: "int list" where
  "downloadSizes = [350, 500, 750, 1000, 1500, 2000, 2500, 3000, 3500, 4000]"

subsection \<open>The outside world\<close>

text \<open>
  What the network and the clock do during one call of \<^verbatim>\<open>fetchHttp\<close>: the error of
  \<^verbatim>\<open>http.Get\<close>, the body and the error of \<^verbatim>\<open>ioutil.ReadAll\<close>, the measured
  \<^verbatim>\<open>endTime.Sub(startTime)\<close>, and the value of \<^verbatim>\<open>time.Since(time.Now())\<close> that an error
  return evaluates (the time between two consecutive readings of the clock).
\<close>

record raw_fetch =
  getErr :: "error option"
  readBody :: bytes
  readErr :: "error option"
  downloadTime :: Duration
  sinceNow :: Duration

text \<open>
  The libraries and the servers the program talks to. \<^verbatim>\<open>xml.Unmarshal\<close> fills the record
  it is given and returns an error or nil; \<^verbatim>\<open>url.Parse\<close> and \<^verbatim>\<open>URL.String\<close> are those of
  \<^verbatim>\<open>net/url\<close>. A latency probe is identified by the position of its server in the slice and
  by its attempt number, a download by its position in the sequence of requests.
\<close>

record world =
  fetchOnce :: "string \<Rightarrow> raw_fetch"
  unmarshalConfig :: "bytes \<Rightarrow> Config \<Rightarrow> Config \<times> error option"
  unmarshalServers :: "bytes \<Rightarrow> Servers \<Rightarrow> Servers \<times> error option"
  urlParse :: "string \<Rightarrow> error + URL"
  urlString :: "URL \<Rightarrow> string"
  probeFetch :: "nat \<Rightarrow> nat \<Rightarrow> string \<Rightarrow> raw_fetch"
  probeSinceNow :: "nat \<Rightarrow> Duration"
  downloadFetch :: "nat \<Rightarrow> string \<Rightarrow> raw_fetch"
  downloadSinceNow :: Duration

section \<open>Utilities\<close>

definition wrap64 :: "int \<Rightarrow> int" where
  "wrap64 x = (x + 2 ^ 63) mod 2 ^ 64 - 2 ^ 63"

definition dur_add :: "Duration \<Rightarrow> Duration \<Rightarrow> Duration" where
  "dur_add a b = wrap64 (a + b)"

definition durationToMilliSeconds :: "Duration \<Rightarrow> int" where
  "durationToMilliSeconds td = td sdiv nanoSecPerMilli"

text \<open>\<^verbatim>\<open>Duration.Seconds\<close>: whole seconds plus the remaining nanoseconds as a fraction.\<close>

definition Seconds :: "Duration \<Rightarrow> float64" where
  "Seconds d = real_of_int (d sdiv 1000000000) + real_of_int (d smod 1000000000) / 1000000000"

definition fetchHttp :: "raw_fetch \<Rightarrow> bytes \<times> Duration \<times> error option" where
  "fetchHttp r =
     (case getErr r of
        Some err \<Rightarrow> ([], sinceNow r, Some err)
      | None \<Rightarrow>
          (case readErr r of
             Some err \<Rightarrow> ([], sinceNow r, Some err)
           | None \<Rightarrow> (readBody r, downloadTime r, None)))"

text \<open>
  \<^verbatim>\<open>math.Atan2(y, x)\<close> on real numbers: the angle of the point \<open>(x, y)\<close> in \<open>(-\<pi>, \<pi>]\<close>.
\<close>

definition Atan2 :: "float64 \<Rightarrow> float64 \<Rightarrow> float64" where
  "Atan2 y x =
     (if 0 < x then arctan (y / x)
      else if x < 0 then (if 0 \<le> y then arctan (y / x) + pi else arctan (y / x) - pi)
      else if 0 < y then pi / 2
      else if y < 0 then - (pi / 2)
      else 0)"

definition distance :: "Point \<Rightarrow> Point \<Rightarrow> float64" where
  "distance origin destination =
     (let dlat = (Point_Lat destination - Point_Lat origin) * degToRad;
          dlon = (Point_Long destination - Point_Long origin) * degToRad;
          radOriginLat = Point_Lat origin * degToRad;
          a = sin (dlat / 2) * sin (dlat / 2) +
              cos radOriginLat * cos radOriginLat * sin (dlon / 2) * sin (dlon / 2);
          c = 2 * Atan2 (sqrt a) (sqrt (1 - a));
          d = earthsRadiusKm * c
      in d)"

text \<open>
  Where the code's \<open>a\<close> exceeds 1 (it can, since the cosine of the origin is squared), Go's
  \<^verbatim>\<open>math.Sqrt(1 - a)\<close> and with it the distance are NaN, which \<open>real\<close> does not represent.
  \<open>distance_defined\<close> says that \<open>a\<close> is at most 1; what is proved of \<open>distance\<close> is meant
  for such arguments only.
\<close>

definition distance_defined :: "Point \<Rightarrow> Point \<Rightarrow> bool" where
  "distance_defined origin destination =
     (let dlat = (Point_Lat destination - Point_Lat origin) * degToRad;
          dlon = (Point_Long destination - Point_Long origin) * degToRad;
          radOriginLat = Point_Lat origin * degToRad;
          a = sin (dlat / 2) * sin (dlat / 2) +
              cos radOriginLat * cos radOriginLat * sin (dlon / 2) * sin (dlon / 2)
      in a \<le> 1)"

text \<open>
  The haversine formula in the specification's words, for comparison with \<open>distance\<close>:
  \<^verbatim>\<open>a = sin^2(dlat/2) + cos(originLat*pi/180) * cos(destLat*pi/180) * sin^2(dlon/2)\<close>,
  \<^verbatim>\<open>distanceKm = 2 * 6371 * atan2(sqrt a, sqrt (1-a))\<close>.
\<close>

definition spec_haversine :: "Point \<Rightarrow> Point \<Rightarrow> float64" where
  "spec_haversine origin dest =
     (let dlat = (Point_Lat dest - Point_Lat origin) * (pi / 180);
          dlon = (Point_Long dest - Point_Long origin) * (pi / 180);
          a = (sin (dlat / 2))\<^sup>2 +
              cos (Point_Lat origin * (pi / 180)) * cos (Point_Lat dest * (pi / 180)) *
              (sin (dlon / 2))\<^sup>2
      in 2 * 6371 * Atan2 (sqrt a) (sqrt (1 - a)))"

section \<open>Configuration and client\<close>

definition getConfig :: "world \<Rightarrow> abort + Config" where
  "getConfig w =
     (case fetchHttp (fetchOnce w configUrl) of
        (configXml, _, Some err) \<Rightarrow> Inl (Fatal err)
      | (configXml, _, None) \<Rightarrow> Inr (fst (unmarshalConfig w configXml Config_zero)))"

definition getClient :: "Config \<Rightarrow> abort + Client" where
  "getClient c =
     (case Clients c of
        [] \<Rightarrow> Inl (Panic ''index out of range'')
      | client # _ \<Rightarrow> Inr client)"

section \<open>The closest servers\<close>

text \<open>
  \<^verbatim>\<open>closestServers\<close> is a Go map from distance to server, here a list of pairs with
  distinct keys: \<open>AList.update\<close> is the assignment \<^verbatim>\<open>closestServers[k] = v\<close>,
  \<open>AList.delete\<close> is \<^verbatim>\<open>delete(closestServers, k)\<close>, \<open>length\<close> is \<^verbatim>\<open>len\<close>. Go iterates
  over a map in an unspecified order, so only the set of the returned servers is meaningful.
\<close>

type_synonym closest_map = "(float64 \<times> Server) list"

definition highest :: "closest_map \<Rightarrow> float64" where
  "highest closestServers =
     fold (\<lambda>k highestDistance. if k > highestDistance then k else highestDistance)
       (map fst closestServers) 0"

definition closestStep :: "Client \<Rightarrow> Server \<Rightarrow> closest_map \<Rightarrow> closest_map" where
  "closestStep client server0 closestServers =
     (let server = server0\<lparr>Distance :=
            distance \<lparr>Point_Lat = Client_Lat client, Point_Long = Client_Long client\<rparr>
                     \<lparr>Point_Lat = Lat server0, Point_Long = Long server0\<rparr>\<rparr>
      in if length closestServers < 5
         then AList.update (Distance server) server closestServers
         else (let highestDistance = highest closestServers
               in if Distance server < highestDistance
                  then AList.update (Distance server) server
                         (AList.delete highestDistance closestServers)
                  else closestServers))"

definition closest :: "Client \<Rightarrow> Server list \<Rightarrow> Server list" where
  "closest client servers = map snd (fold (closestStep client) servers [])"

definition getClosestServers :: "world \<Rightarrow> Client \<Rightarrow> abort + Server list" where
  "getClosestServers w client =
     (case fetchHttp (fetchOnce w serversUrl) of
        (serversXml, _, Some err) \<Rightarrow> Inl (Fatal err)
      | (serversXml, _, None) \<Rightarrow>
          (case ServerGroup (fst (unmarshalServers w serversXml Servers_zero)) of
             [] \<Rightarrow> Inl (Panic ''index out of range'')
           | g # _ \<Rightarrow> Inr (closest client (Servers g))))"

text \<open>
  The distance the loop computes for a server, and what the loop maintains while the
  distances it has computed are pairwise different: after the servers \<open>seen\<close> the map holds
  \<open>min 5 (length seen)\<close> of them under their distances, and each of them is closer than
  every server that it does not hold.
\<close>

definition computed :: "Client \<Rightarrow> Server \<Rightarrow> float64" where
  "computed client server =
     distance \<lparr>Point_Lat = Client_Lat client, Point_Long = Client_Long client\<rparr>
              \<lparr>Point_Lat = Lat server, Point_Long = Long server\<rparr>"

definition retained :: "Client \<Rightarrow> Server list \<Rightarrow> closest_map \<Rightarrow> bool" where
  "retained client seen m \<longleftrightarrow>
     distinct (map fst m) \<and>
     length m = min 5 (length seen) \<and>
     (\<forall>e\<in>set m. \<exists>s\<in>set seen. fst e = computed client s \<and> snd e = s\<lparr>Distance := fst e\<rparr>) \<and>
     (\<forall>e\<in>set m. \<forall>s\<in>set seen. computed client s \<notin> fst ` set m \<longrightarrow> fst e < computed client s)"

section \<open>The best server\<close>

text \<open>
  The probing loop of one task: at most \<open>timesToRunLatency\<close> sequential fetches of the
  latency URL; the first failing fetch leaves the loop (\<^verbatim>\<open>break\<close>).
\<close>

function probeLoop :: "(nat \<Rightarrow> raw_fetch) \<Rightarrow> nat \<Rightarrow> Duration \<Rightarrow> Duration" where
  "probeLoop fetch i totalDur =
     (if i < timesToRunLatency
      then (case fetchHttp (fetch i) of
              (_, dur, Some err) \<Rightarrow> totalDur
            | (_, dur, None) \<Rightarrow> probeLoop fetch (i + 1) (dur_add totalDur dur))
      else totalDur)"
  by pat_completeness auto
termination
  by (relation "measure (\<lambda>(fetch, i, totalDur). timesToRunLatency - i)") auto

declare probeLoop.simps [simp del]

text \<open>
  The body of the goroutine started for the server at position \<open>i\<close>, up to the lock:
  it works on its own copy \<open>server\<close> of the slice element.
\<close>

definition probeTask :: "world \<Rightarrow> nat \<Rightarrow> Server \<Rightarrow> abort + Server" where
  "probeTask w i server =
     (case urlParse w (Url server) of
        Inl err \<Rightarrow> Inl (Fatal err)
      | Inr u0 \<Rightarrow>
          (let u = u0\<lparr>Path := ''/latency.txt''\<rparr>;
               totalDur = probeLoop (\<lambda>k. probeFetch w i k (urlString w u)) 0 (probeSinceNow w i)
           in Inr (server\<lparr>Ping := durationToMilliSeconds totalDur sdiv int timesToRunLatency\<rparr>)))"

text \<open>
  The variables the goroutines share, together with the caller's slice. What a task does
  while it holds \<^verbatim>\<open>bestServerLock\<close> is \<open>lockedUpdate\<close>.
\<close>

record best_state =
  slice :: "Server list"
  firstPass :: bool
  bestServer :: Server

definition lockedUpdate :: "Server \<Rightarrow> best_state \<Rightarrow> best_state" where
  "lockedUpdate server st =
     (if firstPass st \<or> Ping server < Ping (bestServer st)
      then st\<lparr>firstPass := False, bestServer := server\<rparr>
      else st)"

text \<open>
  The goroutines run concurrently; \<open>order\<close> lists the positions of the tasks in the order
  in which they reach the lock (or \<^verbatim>\<open>log.Fatal\<close>, which ends the whole program).
\<close>

fun arrivals :: "world \<Rightarrow> nat list \<Rightarrow> best_state \<Rightarrow> abort + best_state" where
  "arrivals w [] st = Inr st"
| "arrivals w (i # order) st =
     (if i < length (slice st)
      then (case probeTask w i (slice st ! i) of
              Inl a \<Rightarrow> Inl a
            | Inr server \<Rightarrow> arrivals w order (lockedUpdate server st))
      else arrivals w order st)"

definition getBestServer :: "world \<Rightarrow> nat list \<Rightarrow> Server list \<Rightarrow> abort + Server \<times> Server list" where
  "getBestServer w order servers =
     (case arrivals w order \<lparr>slice = servers, firstPass = True, bestServer = Server_zero\<rparr> of
        Inl a \<Rightarrow> Inl a
      | Inr st \<Rightarrow> Inr (bestServer st, slice st))"

subsection \<open>The mean latency in words\<close>

text \<open>Whether a fetch returned a nil error, and the duration it returned.\<close>

definition fetch_ok :: "raw_fetch \<Rightarrow> bool" where
  "fetch_ok r = (snd (snd (fetchHttp r)) = None)"

definition fetch_dur :: "raw_fetch \<Rightarrow> Duration" where
  "fetch_dur r = fst (snd (fetchHttp r))"

text \<open>
  The mean latency as the specification words it: each of the \<open>timesToRunLatency\<close> probes
  is made, the durations of the successful ones are summed, the sum is converted to whole
  milliseconds and divided by the probe count.
\<close>

definition spec_meanLatency :: "(nat \<Rightarrow> raw_fetch) \<Rightarrow> int" where
  "spec_meanLatency fetch =
     (sum_list (map (\<lambda>k. fetch_dur (fetch k))
        (filter (\<lambda>k. fetch_ok (fetch k)) [0..<timesToRunLatency])) sdiv nanoSecPerMilli)
     sdiv int timesToRunLatency"

text \<open>The same with the probes that succeed before the first failing probe only.\<close>

definition mean_before_failure :: "(nat \<Rightarrow> raw_fetch) \<Rightarrow> int" where
  "mean_before_failure fetch =
     (sum_list (map (\<lambda>k. fetch_dur (fetch k))
        (takeWhile (\<lambda>k. fetch_ok (fetch k)) [0..<timesToRunLatency])) sdiv nanoSecPerMilli)
     sdiv int timesToRunLatency"

section \<open>The download speed\<close>

subsection \<open>The producer of URLs\<close>

fun digits :: "nat \<Rightarrow> string" where
  "digits n = (if n < 10 then [''0123456789'' ! n] else digits (n div 10) @ [''0123456789'' ! (n mod 10)])"

declare digits.simps [simp del]

definition Itoa :: "int \<Rightarrow> string" where
  "Itoa n = (if n < 0 then CHR ''-'' # digits (nat (- n)) else digits (nat n))"

text \<open>
  \<^verbatim>\<open>re.ReplaceAllString(src, "$1" + rest)\<close> for \<^verbatim>\<open>re = regexp.MustCompile("(.*)/(.+?)$")\<close>.
  A dot does not match a newline and \<^verbatim>\<open>$\<close> matches at the end of the text only, so a match
  lies in the part of the text after the last newline, begins where that part begins and
  ends where the text ends; the first group is greedy and takes everything before the last
  slash that still has a character after it. When there is no such slash nothing matches
  and the text is returned as it is.
\<close>

definition last_line :: "string \<Rightarrow> string \<times> string" where
  "last_line src =
     (rev (dropWhile (\<lambda>c. c \<noteq> CHR 0x0A) (rev src)), rev (takeWhile (\<lambda>c. c \<noteq> CHR 0x0A) (rev src)))"

definition group1 :: "string \<Rightarrow> string option" where
  "group1 t =
     (if CHR ''/'' \<in> set (butlast t)
      then Some (rev (tl (dropWhile (\<lambda>c. c \<noteq> CHR ''/'') (rev (butlast t)))))
      else None)"

definition re_ReplaceAllString :: "string \<Rightarrow> string \<Rightarrow> string" where
  "re_ReplaceAllString src rest =
     (case group1 (snd (last_line src)) of
        None \<Rightarrow> src
      | Some g \<Rightarrow> fst (last_line src) @ g @ rest)"

datatype chan_event = Send string | Close

text \<open>One iteration of the inner loop: the path of \<open>u\<close> is rewritten, then \<open>u\<close> is sent.\<close>

definition emit :: "world \<Rightarrow> int \<Rightarrow> URL \<times> string list \<Rightarrow> URL \<times> string list" where
  "emit w sz = (\<lambda>(u, ch).
     (let u' = u\<lparr>Path := re_ReplaceAllString (Path u)
                 (''/random'' @ Itoa sz @ ''x'' @ Itoa sz @ ''.jpg'')\<rparr>
      in (u', ch @ [urlString w u'])))"

definition producer :: "world \<Rightarrow> URL \<Rightarrow> chan_event list" where
  "producer w u =
     map Send (snd (fold (\<lambda>sz. emit w sz ^^ duplicateDownloads) downloadSizes (u, []))) @ [Close]"

text \<open>
  The path that asks for the square image of side \<open>sz\<close> in the directory \<open>base\<close>.
\<close>

definition image_path :: "string \<Rightarrow> int \<Rightarrow> string" where
  "image_path base sz = base @ ''/random'' @ Itoa sz @ ''x'' @ Itoa sz @ ''.jpg''"

subsection \<open>The consumers\<close>

text \<open>
  A consumer is about to receive from the channel, or holds the result of its fetch and is
  about to take \<^verbatim>\<open>totalBytesLock\<close>, or has left its loop (\<^verbatim>\<open>wg.Done()\<close>). The channel holds
  what the producer has yet to hand over. A schedule names the consumer that moves next.
\<close>

datatype consumer = Receiving | Fetched bytes Duration | Exited

record pool =
  ch :: "chan_event list"
  requests :: nat
  consumers :: "consumer list"
  totalBytes :: float64
  totalDur :: Duration

datatype move = Receive nat | Accumulate nat

fun step :: "world \<Rightarrow> move \<Rightarrow> pool \<Rightarrow> pool option" where
  "step w (Receive k) s =
     (if k < length (consumers s) \<and> consumers s ! k = Receiving
      then (case ch s of
              [] \<Rightarrow> None
            | Send url # rest \<Rightarrow>
                (case fetchHttp (downloadFetch w (requests s) url) of
                   (b, d, _) \<Rightarrow>
                     Some (s\<lparr>ch := rest, requests := requests s + 1,
                             consumers := (consumers s)[k := Fetched b d]\<rparr>))
            | Close # rest \<Rightarrow> Some (s\<lparr>consumers := (consumers s)[k := Exited]\<rparr>))
      else None)"
| "step w (Accumulate k) s =
     (if k < length (consumers s)
      then (case consumers s ! k of
              Fetched b d \<Rightarrow>
                Some (s\<lparr>totalBytes := totalBytes s + real (length b),
                        totalDur := dur_add (totalDur s) d,
                        consumers := (consumers s)[k := Receiving]\<rparr>)
            | _ \<Rightarrow> None)
      else None)"

fun run :: "world \<Rightarrow> move list \<Rightarrow> pool \<Rightarrow> pool option" where
  "run w [] s = Some s"
| "run w (m # ms) s = (case step w m s of None \<Rightarrow> None | Some s' \<Rightarrow> run w ms s')"

definition finished :: "pool \<Rightarrow> bool" where
  "finished s = list_all (\<lambda>c. c = Exited) (consumers s)"

definition megaBitsPerSecond :: "pool \<Rightarrow> float64" where
  "megaBitsPerSecond s = totalBytes s / Seconds (totalDur s) / bytesPerMegabit"

text \<open>
  \<open>downloadSpeedWith\<close> is \<^verbatim>\<open>downloadSpeed\<close> with the number of consumers as a parameter.
  The result is \<open>None\<close> when the schedule is not a run of the pool up to \<^verbatim>\<open>wg.Wait()\<close>
  returning.
\<close>

definition downloadSpeedWith :: "nat \<Rightarrow> world \<Rightarrow> move list \<Rightarrow> Server \<Rightarrow> (abort + float64) option" where
  "downloadSpeedWith n w sched server =
     (case urlParse w (Url server) of
        Inl err \<Rightarrow> Some (Inl (Fatal err))
      | Inr u \<Rightarrow>
          (case run w sched \<lparr>ch = producer w u, requests = 0, consumers = replicate n Receiving,
                             totalBytes = 0, totalDur = downloadSinceNow w\<rparr> of
             None \<Rightarrow> None
           | Some s \<Rightarrow> if finished s then Some (Inr (megaBitsPerSecond s)) else None))"

definition downloadSpeed :: "world \<Rightarrow> move list \<Rightarrow> Server \<Rightarrow> (abort + float64) option" where
  "downloadSpeed = downloadSpeedWith concurrentDownloads"

subsection \<open>What the pool has done so far\<close>

text \<open>
  The bytes and the duration a consumer holds between its fetch and its turn at the lock,
  what the request at position \<open>j\<close> returns, and the invariant of the pool: the channel
  holds the URLs not yet handed over, a consumer has left only after the last URL was
  handed over, and the totals together with what the consumers hold are the sums over the
  requests made so far.
\<close>

fun held_bytes :: "consumer \<Rightarrow> float64" where
  "held_bytes (Fetched b d) = real (length b)"
| "held_bytes _ = 0"

fun held_dur :: "consumer \<Rightarrow> Duration" where
  "held_dur (Fetched b d) = d"
| "held_dur _ = 0"

definition got :: "world \<Rightarrow> string list \<Rightarrow> nat \<Rightarrow> bytes \<times> Duration \<times> error option" where
  "got w urls j = fetchHttp (downloadFetch w j (urls ! j))"

definition inv :: "world \<Rightarrow> string list \<Rightarrow> Duration \<Rightarrow> pool \<Rightarrow> bool" where
  "inv w urls t0 s \<longleftrightarrow>
     requests s \<le> length urls \<and>
     ch s = map Send (drop (requests s) urls) @ [Close] \<and>
     (Exited \<in> set (consumers s) \<longrightarrow> requests s = length urls) \<and>
     totalBytes s + sum_list (map held_bytes (consumers s))
       = (\<Sum>j<requests s. real (length (fst (got w urls j)))) \<and>
     totalDur s + sum_list (map held_dur (consumers s))
       = t0 + (\<Sum>j<requests s. fst (snd (got w urls j))) \<and>
     0 \<le> totalDur s \<and> (\<forall>c\<in>set (consumers s). 0 \<le> held_dur c)"

section \<open>The program\<close>

definition main :: "world \<Rightarrow> nat list \<Rightarrow> move list \<Rightarrow> (abort + float64) option" where
  "main w order sched =
     (case getConfig w of
        Inl a \<Rightarrow> Some (Inl a)
      | Inr c \<Rightarrow>
          (case getClient c of
             Inl a \<Rightarrow> Some (Inl a)
           | Inr client \<Rightarrow>
               (case getClosestServers w client of
                  Inl a \<Rightarrow> Some (Inl a)
                | Inr s \<Rightarrow>
                    (case getBestServer w order s of
                       Inl a \<Rightarrow> Some (Inl a)
                     | Inr (b, _) \<Rightarrow> downloadSpeed w sched b))))"

section \<open>Example inputs\<close>

definition ok_fetch :: "bytes \<Rightarrow> Duration \<Rightarrow> raw_fetch" where
  "ok_fetch body d =
     \<lparr>getErr = None, readBody = body, readErr = None, downloadTime = d, sinceNow = 0\<rparr>"

definition failed_fetch :: "Duration \<Rightarrow> raw_fetch" where
  "failed_fetch d =
     \<lparr>getErr = Some (Error ''connection refused''), readBody = [], readErr = None,
      downloadTime = 0, sinceNow = d\<rparr>"

definition server_at :: "string \<Rightarrow> float64 \<Rightarrow> float64 \<Rightarrow> Server" where
  "server_at name lat lon =
     \<lparr>Name = name, Sponsor = ''sponsor'', Country = ''country'', Lat = lat, Long = lon,
      Url = ''http://'' @ name @ ''.example.com/speedtest/upload.php'',
      Host = name @ ''.example.com:80'', Distance = 0, Ping = 0\<rparr>"

definition client_at :: "float64 \<Rightarrow> float64 \<Rightarrow> Client" where
  "client_at lat lon =
     \<lparr>Client_Ip = ''192.0.2.1'', Client_Isp = ''isp'', Client_Lat = lat, Client_Long = lon\<rparr>"

text \<open>
  A world whose server list decodes without error to one group holding \<open>servers\<close>, whose
  URLs all parse (as \<^verbatim>\<open>http://host/path\<close>), and where every request succeeds after one
  millisecond.
\<close>

definition serving :: "Server list \<Rightarrow> world" where
  "serving servers =
     \<lparr>fetchOnce = (\<lambda>url. ok_fetch ''<settings/>'' 1000000),
      unmarshalConfig = (\<lambda>data c. (c, None)),
      unmarshalServers = (\<lambda>data s.
        (s\<lparr>Servers_XMLName := ''settings'', ServerGroup := [\<lparr>Servers = servers\<rparr>]\<rparr>, None)),
      urlParse = (\<lambda>s. Inr \<lparr>Scheme = ''http'',
                             URL_Host = takeWhile (\<lambda>c. c \<noteq> CHR ''/'') (drop 7 s),
                             Path = dropWhile (\<lambda>c. c \<noteq> CHR ''/'') (drop 7 s),
                             RawQuery = [], Fragment = []\<rparr>),
      urlString = (\<lambda>u. Scheme u @ ''://'' @ URL_Host u @ Path u),
      probeFetch = (\<lambda>i k url. ok_fetch ''x'' 1000000),
      probeSinceNow = (\<lambda>i. 0),
      downloadFetch = (\<lambda>j url. ok_fetch ''x'' 1000000),
      downloadSinceNow = 0\<rparr>"

text \<open>The same world with given outcomes and initial clock readings for the latency probes.\<close>

definition probing :: "(nat \<Rightarrow> nat \<Rightarrow> raw_fetch) \<Rightarrow> (nat \<Rightarrow> Duration) \<Rightarrow> Server list \<Rightarrow> world" where
  "probing f t0 servers = (serving servers)\<lparr>probeFetch := (\<lambda>i k url. f i k), probeSinceNow := t0\<rparr>"

text \<open>Three servers whose probes take 20, 5 and 5 milliseconds each.\<close>

definition three_servers :: "Server list" where
  "three_servers = [server_at ''A'' 0 1, server_at ''B'' 0 2, server_at ''C'' 0 3]"

definition tie_world :: world where
  "tie_world =
     probing (\<lambda>i k. ok_fetch ''pong'' ([20000000, 5000000, 5000000] ! i)) (\<lambda>i. 0) three_servers"

definition tie_probed :: "nat \<Rightarrow> Server" where
  "tie_probed i = (three_servers ! i)\<lparr>Ping := [20, 5, 5] ! i\<rparr>"

text \<open>
  A server whose second probe fails: the first probe takes 4999999 ns, the third to fifth
  would take 10 ms each. And one whose first two probes take 30 ms and 20 ms and whose
  third probe fails.
\<close>

definition flaky :: "nat \<Rightarrow> nat \<Rightarrow> raw_fetch" where
  "flaky i k = [ok_fetch ''pong'' 4999999, failed_fetch 0, ok_fetch ''pong'' 10000000,
                ok_fetch ''pong'' 10000000, ok_fetch ''pong'' 10000000] ! k"

definition flaky_later :: "nat \<Rightarrow> nat \<Rightarrow> raw_fetch" where
  "flaky_later i k = [ok_fetch ''pong'' 30000000, ok_fetch ''pong'' 20000000, failed_fetch 0,
                      ok_fetch ''pong'' 10000000, ok_fetch ''pong'' 10000000] ! k"

definition flaky_world :: "Duration \<Rightarrow> world" where
  "flaky_world t0 = probing flaky (\<lambda>i. t0) [server_at ''A'' 0 1]"

definition flaky_later_world :: world where
  "flaky_later_world = probing flaky_later (\<lambda>i. 0) [server_at ''A'' 0 1]"

text \<open>
  A world where every download returns 1000 bytes after one second and the accumulator of
  \<^verbatim>\<open>downloadSpeed\<close> starts at \<open>t0\<close>; a world where every download fails and
  \<^verbatim>\<open>time.Since(time.Now())\<close> returns 1 ns; and a world whose two documents are cut off
  before the closing tag of \<^verbatim>\<open>settings\<close>, the configuration after its client element and
  the server list after its group of servers, so that \<^verbatim>\<open>xml.Unmarshal\<close> returns an error
  after it has decoded one client and one group with one server.
\<close>

definition steady_world :: "Duration \<Rightarrow> world" where
  "steady_world t0 = (serving [])\<lparr>
     downloadFetch := (\<lambda>j url. ok_fetch (replicate 1000 CHR ''x'') 1000000000),
     downloadSinceNow := t0\<rparr>"

definition refusing_world :: world where
  "refusing_world = (serving [])\<lparr>downloadFetch := (\<lambda>j url. failed_fetch 1)\<rparr>"

definition truncated_world :: world where
  \<open>truncated_world = (serving [])\<lparr>
     fetchOnce := (\<lambda>url.
       if url = configUrl
       then ok_fetch ''<settings><client ip="192.0.2.1" isp="isp" lat="0" lon="0"/>'' 1000000
       else ok_fetch (''<settings><servers><server name="A" sponsor="sponsor" country="country" ''
              @ ''lat="0" lon="1" url="http://A.example.com/speedtest/upload.php" ''
              @ ''host="A.example.com:80"/></servers>'') 1000000),
     unmarshalConfig := (\<lambda>data c.
       (c\<lparr>Config_XMLName := ''settings'', Clients := [client_at 0 0]\<rparr>,
        Some (Error ''XML syntax error on line 1: unexpected EOF''))),
     unmarshalServers := (\<lambda>data s.
       (s\<lparr>Servers_XMLName := ''settings'', ServerGroup := [\<lparr>Servers = [server_at ''A'' 0 1]\<rparr>]\<rparr>,
        Some (Error ''XML syntax error on line 1: unexpected EOF'')))\<rparr>\<close>

section \<open>The distance\<close>

lemma distance_expand:
  "distance origin destination =
     6371 * (2 * Atan2
       (sqrt ((sin ((Point_Lat destination - Point_Lat origin) * (pi / 180) / 2))\<^sup>2 +
              (cos (Point_Lat origin * (pi / 180)))\<^sup>2 *
              (sin ((Point_Long destination - Point_Long origin) * (pi / 180) / 2))\<^sup>2))
       (sqrt (1 - ((sin ((Point_Lat destination - Point_Lat origin) * (pi / 180) / 2))\<^sup>2 +
              (cos (Point_Lat origin * (pi / 180)))\<^sup>2 *
              (sin ((Point_Long destination - Point_Long origin) * (pi / 180) / 2))\<^sup>2))))"
  by (simp add: distance_def Let_def degToRad_def earthsRadiusKm_def power2_eq_square mult.assoc)

lemma Atan2_pos: "0 < x \<Longrightarrow> Atan2 y x = arctan (y / x)"
  by (simp add: Atan2_def)

lemma arctan_sqrt3: "arctan (sqrt 3) = pi / 3"
proof (rule arctan_unique)
  show "- (pi / 2) < pi / 3" using pi_gt_zero by linarith
  show "pi / 3 < pi / 2" using pi_gt_zero by linarith
  show "tan (pi / 3) = sqrt 3" by (rule tan_60)
qed

text \<open>From the point (0, 0) to the point (60, 90): the code's \<open>a\<close> is 3/4.\<close>

lemma distance_there:
  "distance \<lparr>Point_Lat = 0, Point_Long = 0\<rparr> \<lparr>Point_Lat = 60, Point_Long = 90\<rparr>
     = 6371 * (2 * pi / 3)"
proof -
  have a: "(sin ((60 - 0) * (pi / 180) / 2))\<^sup>2 +
           (cos (0 * (pi / 180)))\<^sup>2 * (sin ((90 - 0) * (pi / 180) / 2))\<^sup>2 = (3/4::real)"
    by (simp add: sin_30 sin_45 power2_eq_square)
  have s1: "sqrt (3/4::real) = sqrt 3 / 2" by (simp add: real_sqrt_divide)
  have s2: "sqrt (1 - 3/4::real) = 1 / 2" by (simp add: real_sqrt_divide)
  have at: "Atan2 (sqrt 3 / 2) (1/2) = pi / 3"
    by (simp add: Atan2_pos arctan_sqrt3)
  show ?thesis
    unfolding distance_expand Point.simps a s1 s2 at by simp
qed

text \<open>Back from (60, 90) to (0, 0): the code's \<open>a\<close> is 3/8.\<close>

lemma distance_back:
  "distance \<lparr>Point_Lat = 60, Point_Long = 90\<rparr> \<lparr>Point_Lat = 0, Point_Long = 0\<rparr>
     = 6371 * (2 * arctan (sqrt (3/5)))"
proof -
  have a: "(sin ((0 - 60) * (pi / 180) / 2))\<^sup>2 +
           (cos (60 * (pi / 180)))\<^sup>2 * (sin ((0 - 90) * (pi / 180) / 2))\<^sup>2 = (3/8::real)"
    by (simp add: sin_30 sin_45 cos_60 power2_eq_square)
  have s2: "(1 - 3/8::real) = 5/8" by simp
  have at: "Atan2 (sqrt (3/8)) (sqrt (5/8)) = arctan (sqrt (3/5))"
    by (simp add: Atan2_pos real_sqrt_divide flip: real_sqrt_divide)
  show ?thesis
    unfolding distance_expand Point.simps a s2 at by simp
qed

text \<open>The formula of the specification between the same points: its \<open>a\<close> is 1/2.\<close>

lemma spec_haversine_there:
  "spec_haversine \<lparr>Point_Lat = 0, Point_Long = 0\<rparr> \<lparr>Point_Lat = 60, Point_Long = 90\<rparr>
     = 6371 * (pi / 2)"
proof -
  have a: "(sin ((60 - 0) * (pi / 180) / 2))\<^sup>2 +
           cos (0 * (pi / 180)) * cos (60 * (pi / 180)) * (sin ((90 - 0) * (pi / 180) / 2))\<^sup>2
           = (1/2::real)"
    by (simp add: sin_30 sin_45 cos_60 power2_eq_square)
  have s2: "(1 - 1/2::real) = 1/2" by simp
  have at: "Atan2 (sqrt (1/2)) (sqrt (1/2)) = pi / 4"
    by (simp add: Atan2_pos arctan_one)
  show ?thesis
    unfolding spec_haversine_def Let_def Point.simps a s2 at by simp
qed

text \<open>
  Claim C3. The claim is that \<open>distance\<close> computes the haversine distance with the term
  \<open>cos(originLat) * cos(destLat)\<close> and is therefore symmetric. The code multiplies
  \<open>cos(originLat)\<close> by itself. Between the points (0, 0) and (60, 90), a quarter of a great
  circle apart, the code returns a third of the circumference in one direction, a
  different value in the other direction, and in neither direction the value of the
  specified formula.
\<close>

theorem distance_not_haversine:
  "distance \<lparr>Point_Lat = 0, Point_Long = 0\<rparr> \<lparr>Point_Lat = 60, Point_Long = 90\<rparr>
     = 6371 * (2 * pi / 3)
   \<and> spec_haversine \<lparr>Point_Lat = 0, Point_Long = 0\<rparr> \<lparr>Point_Lat = 60, Point_Long = 90\<rparr>
     = 6371 * (pi / 2)
   \<and> distance \<lparr>Point_Lat = 0, Point_Long = 0\<rparr> \<lparr>Point_Lat = 60, Point_Long = 90\<rparr>
     \<noteq> spec_haversine \<lparr>Point_Lat = 0, Point_Long = 0\<rparr> \<lparr>Point_Lat = 60, Point_Long = 90\<rparr>
   \<and> distance \<lparr>Point_Lat = 60, Point_Long = 90\<rparr> \<lparr>Point_Lat = 0, Point_Long = 0\<rparr>
     \<noteq> distance \<lparr>Point_Lat = 0, Point_Long = 0\<rparr> \<lparr>Point_Lat = 60, Point_Long = 90\<rparr>"
proof -
  have "arctan (sqrt (3/5)) \<noteq> arctan (sqrt 3)"
    by (simp add: arctan_eq_iff)
  then have "distance \<lparr>Point_Lat = 60, Point_Long = 90\<rparr> \<lparr>Point_Lat = 0, Point_Long = 0\<rparr>
     \<noteq> distance \<lparr>Point_Lat = 0, Point_Long = 0\<rparr> \<lparr>Point_Lat = 60, Point_Long = 90\<rparr>"
    unfolding distance_there distance_back by (simp add: arctan_sqrt3)
  moreover have "(6371::real) * (2 * pi / 3) \<noteq> 6371 * (pi / 2)"
    using pi_gt_zero by simp
  ultimately show ?thesis
    by (simp add: distance_there spec_haversine_there)
qed

section \<open>The closest servers: what the map keyed by distance does\<close>

text \<open>On the equator, seen from (0, 0), the code's distance is the arc length.\<close>

lemma distance_equator:
  assumes "0 \<le> lon" "lon < 180"
  shows "distance \<lparr>Point_Lat = 0, Point_Long = 0\<rparr> \<lparr>Point_Lat = 0, Point_Long = lon\<rparr>
           = 6371 * (lon * pi / 180)"
proof -
  define x where "x = lon * pi / 360"
  have x0: "0 \<le> x" using assms pi_gt_zero by (simp add: x_def)
  have "lon * pi < 180 * pi" using assms pi_gt_zero by simp
  then have x1: "x < pi / 2" by (simp add: x_def)
  have s: "0 \<le> sin x" using x0 x1 pi_gt_zero by (intro sin_ge_zero) linarith+
  have c: "0 < cos x" using x0 x1 by (intro cos_gt_zero_pi) linarith+
  have "1 - (sin x)\<^sup>2 = (cos x)\<^sup>2" using sin_cos_squared_add[of x] by linarith
  then have sq: "sqrt (1 - (sin x)\<^sup>2) = cos x" using c by simp
  have sq2: "sqrt ((sin x)\<^sup>2) = sin x" using s by simp
  have "Atan2 (sin x) (cos x) = arctan (tan x)" using c by (simp add: Atan2_pos tan_def)
  also have "\<dots> = x" using x0 x1 by (intro arctan_tan) linarith+
  finally have at: "Atan2 (sin x) (cos x) = x" .
  have "distance \<lparr>Point_Lat = 0, Point_Long = 0\<rparr> \<lparr>Point_Lat = 0, Point_Long = lon\<rparr>
        = 6371 * (2 * Atan2 (sqrt ((sin x)\<^sup>2)) (sqrt (1 - (sin x)\<^sup>2)))"
    unfolding distance_expand x_def by simp
  also have "\<dots> = 6371 * (2 * x)" unfolding sq sq2 at ..
  finally show ?thesis by (simp add: x_def)
qed

lemma getClosestServers_serving:
  "getClosestServers (serving servers) client = Inr (closest client servers)"
  by (simp add: getClosestServers_def serving_def fetchHttp_def ok_fetch_def Servers_zero_def)

lemma Atan2_nonneg: "0 \<le> y \<Longrightarrow> 0 \<le> Atan2 y x"
proof -
  assume y: "0 \<le> y"
  have a: "- (pi / 2) < arctan (y / x)" by (rule arctan_lbound)
  show ?thesis
  proof (cases "0 < x")
    case True
    then have "0 \<le> y / x" using y by simp
    then show ?thesis using True by (simp add: Atan2_def zero_le_arctan_iff)
  next
    case False
    show ?thesis
    proof (cases "x < 0")
      case True
      have "0 \<le> arctan (y / x) + pi" using a pi_gt_zero by linarith
      then show ?thesis using True y by (simp add: Atan2_def)
    next
      case x0: False
      have "0 \<le> pi / 2" using pi_gt_zero by simp
      then show ?thesis using False x0 y by (simp add: Atan2_def)
    qed
  qed
qed

lemma distance_nonneg: "0 \<le> distance origin destination"
  unfolding distance_expand by (intro mult_nonneg_nonneg Atan2_nonneg) simp_all

lemma update_new_key:
  "k \<notin> fst ` set m \<Longrightarrow> AList.update k v m = m @ [(k, v)]"
  by (induction m) auto

lemma highest_fold:
  "(\<forall>k\<in>set ks. k \<le> fold (\<lambda>k h. if k > h then k else h) ks a) \<and>
   a \<le> fold (\<lambda>k h. if k > h then k else h) ks a \<and>
   fold (\<lambda>k h. if k > h then k else (h::real)) ks a \<in> insert a (set ks)"
proof (induction ks arbitrary: a)
  case Nil
  then show ?case by simp
next
  case (Cons k ks)
  show ?case
  proof (cases "k > a")
    case True
    with Cons[of k] show ?thesis by auto
  next
    case False
    with Cons[of a] show ?thesis by auto
  qed
qed

lemma highest_is_max:
  assumes "distinct (map fst m)" and "2 \<le> length m" and "\<forall>e\<in>set m. 0 \<le> fst e"
  shows "highest m \<in> fst ` set m \<and> (\<forall>e\<in>set m. fst e \<le> highest m)"
proof -
  from highest_fold[of "map fst m" 0]
  have le: "\<forall>e\<in>set m. fst e \<le> highest m" and mem: "highest m \<in> insert 0 (fst ` set m)"
    by (auto simp: highest_def)
  have "highest m \<in> fst ` set m"
  proof (rule ccontr)
    assume n: "highest m \<notin> fst ` set m"
    then have h0: "highest m = 0" using mem by auto
    then have all0: "\<forall>e\<in>set m. fst e = 0" using le assms(3) by force
    obtain e1 e2 rest where m: "m = e1 # e2 # rest"
      using assms(2) by (cases m; cases "tl m") auto
    then have "fst e1 = 0" "fst e2 = 0" using all0 by auto
    then show False using assms(1) m by simp
  qed
  then show ?thesis using le by simp
qed

lemma length_delete_key:
  assumes "distinct (map fst m)" and "k \<in> fst ` set m"
  shows "Suc (length (AList.delete k m)) = length m"
  using assms
proof (induction m)
  case Nil
  then show ?case by simp
next
  case (Cons e m)
  show ?case
  proof (cases "fst e = k")
    case True
    then have "k \<notin> fst ` set m" using Cons.prems(1) by auto
    then have "AList.delete k m = m" by (induction m) (auto simp: AList.delete_eq)
    then show ?thesis using True by (cases e) (simp add: AList.delete_eq)
  next
    case False
    then show ?thesis using Cons by (cases e) (auto simp: AList.delete_eq)
  qed
qed


lemma retained_step:
  assumes inv: "retained client seen m"
      and new: "computed client s \<notin> computed client ` set seen"
  shows "retained client (seen @ [s]) (closestStep client s m)"
proof -
  let ?d = "computed client s"
  let ?s' = "s\<lparr>Distance := ?d\<rparr>"
  from inv have dis: "distinct (map fst m)" and len: "length m = min 5 (length seen)"
    and src: "\<forall>e\<in>set m. \<exists>x\<in>set seen. fst e = computed client x \<and> snd e = x\<lparr>Distance := fst e\<rparr>"
    and low: "\<forall>e\<in>set m. \<forall>x\<in>set seen. computed client x \<notin> fst ` set m \<longrightarrow> fst e < computed client x"
    by (auto simp: retained_def)
  have keys: "fst ` set m \<subseteq> computed client ` set seen" using src by force
  then have dnew: "?d \<notin> fst ` set m" using new by auto
  have nonneg: "\<forall>e\<in>set m. 0 \<le> fst e"
    using src by (force simp: computed_def distance_nonneg)
  show ?thesis
  proof (cases "length m < 5")
    case True
    then have ls: "length seen = length m" using len by simp
    have step: "closestStep client s m = m @ [(?d, ?s')]"
      using True dnew by (simp add: closestStep_def Let_def computed_def update_new_key)
    have all_in: "computed client ` set seen \<subseteq> fst ` set m"
    proof -
      have "card (fst ` set m) = length m" using dis by (metis distinct_card set_map length_map)
      moreover have "card (computed client ` set seen) \<le> length seen"
        by (metis card_image_le card_length List.finite_set le_trans)
      ultimately have "card (computed client ` set seen) \<le> card (fst ` set m)" using ls by simp
      then show ?thesis using keys by (metis card_seteq List.finite_set finite_imageI order_refl subset_antisym)
    qed
    show ?thesis
      unfolding retained_def step
    proof (intro conjI)
      show "distinct (map fst (m @ [(?d, ?s')]))" using dis dnew by simp
      show "length (m @ [(?d, ?s')]) = min 5 (length (seen @ [s]))" using True ls by simp
      show "\<forall>e\<in>set (m @ [(?d, ?s')]). \<exists>x\<in>set (seen @ [s]).
              fst e = computed client x \<and> snd e = x\<lparr>Distance := fst e\<rparr>"
        using src by auto
      show "\<forall>e\<in>set (m @ [(?d, ?s')]). \<forall>x\<in>set (seen @ [s]).
              computed client x \<notin> fst ` set (m @ [(?d, ?s')]) \<longrightarrow> fst e < computed client x"
        using all_in by auto
    qed
  next
    case False
    then have l5: "length m = 5" using len by simp
    have hm: "highest m \<in> fst ` set m" and hmax: "\<forall>e\<in>set m. fst e \<le> highest m"
      using highest_is_max[OF dis _ nonneg] l5 by auto
    show ?thesis
    proof (cases "?d < highest m")
      case far: False
      have step: "closestStep client s m = m"
        using False far by (simp add: closestStep_def Let_def computed_def)
      have "\<forall>e\<in>set m. fst e < ?d"
      proof
        fix e assume e: "e \<in> set m"
        then have "fst e \<le> ?d" using hmax far by force
        moreover have "fst e \<in> fst ` set m" using e by (rule imageI)
        then have "fst e \<noteq> ?d" using dnew by metis
        ultimately show "fst e < ?d" by simp
      qed
      then show ?thesis
        unfolding retained_def step using dis l5 len src low by auto
    next
      case near: True
      let ?m' = "AList.delete (highest m) m"
      have dk: "?d \<notin> fst ` set ?m'" using dnew by (auto simp: AList.delete_eq)
      have step: "closestStep client s m = ?m' @ [(?d, ?s')]"
        using False near dk by (simp add: closestStep_def Let_def computed_def update_new_key)
      have set': "set ?m' = {e \<in> set m. fst e \<noteq> highest m}"
        by (auto simp: AList.delete_eq)
      have len': "length ?m' = 4" using length_delete_key[OF dis hm] l5 by simp
      have in_lt: "\<forall>e\<in>set ?m'. fst e < highest m"
        using hmax by (force simp: set')
      show ?thesis
        unfolding retained_def step
      proof (intro conjI)
        show "distinct (map fst (?m' @ [(?d, ?s')]))"
          using dis dk by (simp add: AList.distinct_delete)
        show "length (?m' @ [(?d, ?s')]) = min 5 (length (seen @ [s]))"
          using len' l5 len by simp
        show "\<forall>e\<in>set (?m' @ [(?d, ?s')]). \<exists>x\<in>set (seen @ [s]).
                fst e = computed client x \<and> snd e = x\<lparr>Distance := fst e\<rparr>"
          using src by (auto simp: set')
        show "\<forall>e\<in>set (?m' @ [(?d, ?s')]). \<forall>x\<in>set (seen @ [s]).
                computed client x \<notin> fst ` set (?m' @ [(?d, ?s')]) \<longrightarrow> fst e < computed client x"
        proof (intro ballI impI)
          fix e x
          assume e: "e \<in> set (?m' @ [(?d, ?s')])" and x: "x \<in> set (seen @ [s])"
            and out: "computed client x \<notin> fst ` set (?m' @ [(?d, ?s')])"
          have xs: "x \<in> set seen" using x out by auto
          have elt: "fst e < highest m" using e in_lt near by auto
          show "fst e < computed client x"
          proof (cases "computed client x = highest m")
            case True
            then show ?thesis using elt by simp
          next
            case False
            then have "computed client x \<notin> fst ` set m" using out by (auto simp: set')
            then have "highest m < computed client x" using low hm xs by auto
            then show ?thesis using elt by simp
          qed
        qed
      qed
    qed
  qed
qed


lemma retained_fold:
  assumes "retained client seen m" and "distinct (map (computed client) (seen @ servers))"
  shows "retained client (seen @ servers) (fold (closestStep client) servers m)"
  using assms
proof (induction servers arbitrary: seen m)
  case Nil
  then show ?case by simp
next
  case (Cons s servers)
  have "computed client s \<notin> computed client ` set seen" using Cons.prems(2) by auto
  from retained_step[OF Cons.prems(1) this]
  have 1: "retained client (seen @ [s]) (closestStep client s m)" .
  have 2: "distinct (map (computed client) ((seen @ [s]) @ servers))" using Cons.prems(2) by simp
  from Cons.IH[OF 1 2] show ?case by simp
qed

text \<open>
  When the computed distances of the candidates are numbers (no NaN) and pairwise
  different, the function does return \<open>min 5 n\<close> servers, each a candidate with its
  distance, and each closer than every candidate that is not returned.
\<close>

lemma closest_distinct_distances:
  assumes "distinct (map (computed client) servers)"
      and "\<forall>s\<in>set servers.
             distance_defined \<lparr>Point_Lat = Client_Lat client, Point_Long = Client_Long client\<rparr>
                              \<lparr>Point_Lat = Lat s, Point_Long = Long s\<rparr>"
  shows "length (closest client servers) = min 5 (length servers) \<and>
         (\<forall>r\<in>set (closest client servers). \<exists>s\<in>set servers. r = s\<lparr>Distance := computed client s\<rparr>) \<and>
         (\<forall>r\<in>set (closest client servers). \<forall>s\<in>set servers.
            s\<lparr>Distance := computed client s\<rparr> \<notin> set (closest client servers) \<longrightarrow>
            Distance r < computed client s)"
proof -
  let ?m = "fold (closestStep client) servers []"
  have "retained client [] []" by (simp add: retained_def)
  from retained_fold[OF this, of servers] assms(1)
  have r: "retained client servers ?m" by simp
  then have len: "length ?m = min 5 (length servers)"
    and src: "\<forall>e\<in>set ?m. \<exists>s\<in>set servers. fst e = computed client s \<and> snd e = s\<lparr>Distance := fst e\<rparr>"
    and low: "\<forall>e\<in>set ?m. \<forall>s\<in>set servers. computed client s \<notin> fst ` set ?m \<longrightarrow> fst e < computed client s"
    by (auto simp: retained_def)
  have 1: "length (closest client servers) = min 5 (length servers)"
    using len by (simp add: closest_def)
  have 2: "\<forall>r\<in>set (closest client servers). \<exists>s\<in>set servers. r = s\<lparr>Distance := computed client s\<rparr>"
    using src by (force simp: closest_def)
  have 3: "\<forall>r\<in>set (closest client servers). \<forall>s\<in>set servers.
            s\<lparr>Distance := computed client s\<rparr> \<notin> set (closest client servers) \<longrightarrow>
            Distance r < computed client s"
  proof (intro ballI impI)
    fix r s
    assume r: "r \<in> set (closest client servers)" and s: "s \<in> set servers"
      and out: "s\<lparr>Distance := computed client s\<rparr> \<notin> set (closest client servers)"
    from r obtain e where e: "e \<in> set ?m" "r = snd e" by (auto simp: closest_def)
    from src e(1) obtain x where x: "x \<in> set servers" "fst e = computed client x"
      "snd e = x\<lparr>Distance := fst e\<rparr>" by blast
    have dr: "Distance r = fst e" using e(2) x(3) by simp
    have "computed client s \<notin> fst ` set ?m"
    proof
      assume "computed client s \<in> fst ` set ?m"
      then obtain e' where e': "e' \<in> set ?m" "fst e' = computed client s" by force
      from src e'(1) obtain y where y: "y \<in> set servers" "fst e' = computed client y"
        "snd e' = y\<lparr>Distance := fst e'\<rparr>" by blast
      have "y = s" using assms(1) y(1,2) e'(2) s by (metis distinct_map inj_on_eq_iff)
      then have "snd e' = s\<lparr>Distance := computed client s\<rparr>" using y(3) e'(2) by simp
      then show False using out e'(1) by (force simp: closest_def)
    qed
    then show "Distance r < computed client s" using low e(1) s dr by auto
  qed
  show ?thesis using 1 2 3 by blast
qed

text \<open>
  Claim C1. The claim is that two distinct servers with the same computed distance are
  both retained while fewer than 5 servers are retained. The code stores the retained
  servers in a map whose key is the distance. For a client at (0, 0) and a list of two
  servers A and B that stand at the same place (10, 20), \<^verbatim>\<open>getClosestServers\<close> returns B
  alone: the assignment for B overwrites the entry of A.
\<close>

theorem getClosestServers_drops_equal_distance:
  "getClosestServers (serving [server_at ''A'' 10 20, server_at ''B'' 10 20]) (client_at 0 0)
     = Inr [(server_at ''B'' 10 20)\<lparr>Distance :=
              distance \<lparr>Point_Lat = 0, Point_Long = 0\<rparr> \<lparr>Point_Lat = 10, Point_Long = 20\<rparr>\<rparr>]"
  by (simp add: getClosestServers_serving closest_def closestStep_def server_at_def
      client_at_def Let_def)

text \<open>
  Claim C2. The claim is that \<^verbatim>\<open>getClosestServers\<close> returns exactly min(5, n) servers and
  that no returned server is farther than a server that was not returned. Servers A to G
  stand on the equator at the longitudes 1, 2, 3, 4, 5, 1 and 100, the client at (0, 0).
  For the list A to F the code returns four servers, not five: F has the distance of A,
  so the entry of E is deleted and the entry of A is overwritten. For the list A to G it
  then returns G, at longitude 100, although E, at longitude 5, was not returned.
\<close>

theorem getClosestServers_not_the_closest:
  "map_sum id (map (\<lambda>s. (Name s, Long s)))
     (getClosestServers
        (serving [server_at ''A'' 0 1, server_at ''B'' 0 2, server_at ''C'' 0 3,
                  server_at ''D'' 0 4, server_at ''E'' 0 5, server_at ''F'' 0 1])
        (client_at 0 0))
    = Inr [(''F'', 1), (''B'', 2), (''C'', 3), (''D'', 4)]
  \<and> map_sum id (map (\<lambda>s. (Name s, Long s)))
     (getClosestServers
        (serving [server_at ''A'' 0 1, server_at ''B'' 0 2, server_at ''C'' 0 3,
                  server_at ''D'' 0 4, server_at ''E'' 0 5, server_at ''F'' 0 1,
                  server_at ''G'' 0 100])
        (client_at 0 0))
    = Inr [(''F'', 1), (''B'', 2), (''C'', 3), (''D'', 4), (''G'', 100)]
  \<and> distance \<lparr>Point_Lat = 0, Point_Long = 0\<rparr> \<lparr>Point_Lat = 0, Point_Long = 5\<rparr>
    < distance \<lparr>Point_Lat = 0, Point_Long = 0\<rparr> \<lparr>Point_Lat = 0, Point_Long = 100\<rparr>"
  by (simp add: getClosestServers_serving closest_def closestStep_def server_at_def
      client_at_def Let_def distance_equator highest_def)

section \<open>The best server: selection\<close>

lemma sdiv_nonneg: "0 \<le> a \<Longrightarrow> 0 \<le> b \<Longrightarrow> a sdiv b = a div (b::int)"
  by (auto simp: signed_divide_int_def sgn_if)

lemma wrap64_id: "- (2 ^ 63) \<le> x \<Longrightarrow> x < 2 ^ 63 \<Longrightarrow> wrap64 x = x"
  by (simp add: wrap64_def)

lemma arrivals_slice:
  "arrivals w order st = Inr st' \<Longrightarrow> slice st' = slice st"
proof (induction order arbitrary: st)
  case Nil
  then show ?case by simp
next
  case (Cons i order)
  show ?case
  proof (cases "i < length (slice st)")
    case False
    with Cons show ?thesis by simp
  next
    case True
    with Cons.prems obtain server where
      t: "probeTask w i (slice st ! i) = Inr server" and
      r: "arrivals w order (lockedUpdate server st) = Inr st'"
      by (auto split: sum.splits)
    from Cons.IH[OF r] show ?thesis by (simp add: lockedUpdate_def)
  qed
qed

lemma arrivals_append:
  "arrivals w (xs @ ys) st =
     (case arrivals w xs st of Inl a \<Rightarrow> Inl a | Inr st' \<Rightarrow> arrivals w ys st')"
  by (induction xs arbitrary: st) (auto split: sum.splits)

lemma probeTask_same_server:
  "probeTask w i server = Inr server' \<Longrightarrow> server' = server\<lparr>Ping := Ping server'\<rparr>"
  by (auto simp: probeTask_def Let_def split: sum.splits)

text \<open>
  The shared variables after all tasks of a schedule have held the lock: the recorded
  server is the one of a task \<open>i\<close> such that every task before it in the schedule has a
  strictly higher mean and every task after it a mean that is not lower.
\<close>

lemma arrivals_best:
  assumes "\<forall>i\<in>set order. i < length (slice st) \<and> probeTask w i (slice st ! i) = Inr (probed i)"
      and "order \<noteq> []" and "firstPass st"
  shows "\<exists>pre i post st'. order = pre @ i # post \<and> arrivals w order st = Inr st' \<and>
           \<not> firstPass st' \<and> bestServer st' = probed i \<and> slice st' = slice st \<and>
           (\<forall>j\<in>set pre. Ping (probed i) < Ping (probed j)) \<and>
           (\<forall>j\<in>set post. Ping (probed i) \<le> Ping (probed j))"
  using assms
proof (induction order rule: rev_induct)
  case Nil
  then show ?case by simp
next
  case (snoc k order)
  have k: "k < length (slice st)" "probeTask w k (slice st ! k) = Inr (probed k)"
    using snoc.prems(1) by auto
  show ?case
  proof (cases "order = []")
    case True
    have "arrivals w [k] st = Inr (lockedUpdate (probed k) st)"
      using k by simp
    moreover have "lockedUpdate (probed k) st = st\<lparr>firstPass := False, bestServer := probed k\<rparr>"
      using snoc.prems(3) by (simp add: lockedUpdate_def)
    ultimately show ?thesis using True
      by (intro exI[of _ "[]"] exI[of _ k]) simp
  next
    case False
    from snoc.IH[OF _ False snoc.prems(3)] snoc.prems(1)
    obtain pre i post st' where
      o: "order = pre @ i # post" and a: "arrivals w order st = Inr st'" and
      f: "\<not> firstPass st'" and b: "bestServer st' = probed i" and s: "slice st' = slice st" and
      lt: "\<forall>j\<in>set pre. Ping (probed i) < Ping (probed j)" and
      le: "\<forall>j\<in>set post. Ping (probed i) \<le> Ping (probed j)"
      by auto
    have step: "arrivals w (order @ [k]) st = Inr (lockedUpdate (probed k) st')"
      using a k s by (simp add: arrivals_append)
    show ?thesis
    proof (cases "Ping (probed k) < Ping (probed i)")
      case True
      have "lockedUpdate (probed k) st' = st'\<lparr>firstPass := False, bestServer := probed k\<rparr>"
        using True b by (simp add: lockedUpdate_def)
      moreover have "\<forall>j\<in>set order. Ping (probed k) < Ping (probed j)"
        using True lt le o by force
      ultimately show ?thesis using step s
        by (intro exI[of _ order] exI[of _ k] exI[of _ "[]"]) simp
    next
      case False
      then have "lockedUpdate (probed k) st' = st'"
        using f b by (simp add: lockedUpdate_def)
      then show ?thesis using step s f b lt le False o
        by (intro exI[of _ pre] exI[of _ i] exI[of _ "post @ [k]"]) auto
    qed
  qed
qed

lemma schedule_nonempty:
  assumes "servers \<noteq> []" and "set order = {..<length servers}"
  shows "order \<noteq> []"
proof
  assume "order = []"
  then have "{..<length servers} = {}" using assms(2) by simp
  then show False using assms(1) by (simp add: lessThan_empty_iff)
qed

lemma schedule_tasks:
  assumes "set order = {..<length servers}"
      and "\<forall>i<length servers. probeTask w i (servers ! i) = Inr (probed i)"
  shows "\<forall>i\<in>set order. i < length servers \<and> probeTask w i (servers ! i) = Inr (probed i)"
proof
  fix i assume "i \<in> set order"
  then have "i \<in> {..<length servers}" by (simp only: assms(1))
  then have "i < length servers" by simp
  then show "i < length servers \<and> probeTask w i (servers ! i) = Inr (probed i)"
    using assms(2) by simp
qed

text \<open>
  Claim C5. Given a non-empty list of servers whose tasks each yield a server with its
  mean ping (\<open>probed i\<close> for the task at position \<open>i\<close>), and any order in which the tasks take
  the lock (a permutation of the positions), \<^verbatim>\<open>getBestServer\<close> returns the server of one
  task \<open>i\<close>, with its own identity and the ping of that task; its ping is at most the ping of
  every candidate; and every task that took the lock before \<open>i\<close> has a strictly higher ping,
  so among the tasks with the lowest mean the first to be recorded is returned.
\<close>

theorem getBestServer_lowest_mean:
  assumes "servers \<noteq> []"
      and "distinct order" and "set order = {..<length servers}"
      and "\<forall>i<length servers. probeTask w i (servers ! i) = Inr (probed i)"
  shows "\<exists>pre i post. order = pre @ i # post \<and>
           getBestServer w order servers = Inr (probed i, servers) \<and>
           probed i = (servers ! i)\<lparr>Ping := Ping (probed i)\<rparr> \<and>
           (\<forall>j<length servers. Ping (probed i) \<le> Ping (probed j)) \<and>
           (\<forall>j\<in>set pre. Ping (probed i) < Ping (probed j))"
proof -
  let ?st = "\<lparr>slice = servers, firstPass = True, bestServer = Server_zero\<rparr>"
  have tasks: "\<forall>i\<in>set order. i < length (slice ?st) \<and> probeTask w i (slice ?st ! i) = Inr (probed i)"
    using schedule_tasks[OF assms(3,4)] by simp
  have ne: "order \<noteq> []" using assms(1,3) by (rule schedule_nonempty)
  have fp: "firstPass ?st" by simp
  from arrivals_best[OF tasks ne fp]
  obtain pre i post st' where
    o: "order = pre @ i # post" and a: "arrivals w order ?st = Inr st'" and
    b: "bestServer st' = probed i" and s0: "slice st' = slice ?st" and
    lt: "\<forall>j\<in>set pre. Ping (probed i) < Ping (probed j)" and
    le: "\<forall>j\<in>set post. Ping (probed i) \<le> Ping (probed j)"
    by blast
  have s: "slice st' = servers" using s0 by simp
  have "i \<in> set order" using o by simp
  then have "i \<in> {..<length servers}" by (simp only: assms(3))
  then have i: "i < length servers" by simp
  have res: "getBestServer w order servers = Inr (probed i, servers)"
    using a b s by (simp add: getBestServer_def)
  have same: "probed i = (servers ! i)\<lparr>Ping := Ping (probed i)\<rparr>"
  proof -
    have "probeTask w i (servers ! i) = Inr (probed i)" using assms(4) i by simp
    then show ?thesis by (rule probeTask_same_server)
  qed
  have all: "\<forall>j<length servers. Ping (probed i) \<le> Ping (probed j)"
  proof (intro allI impI)
    fix j assume "j < length servers"
    then have "j \<in> {..<length servers}" by simp
    then have "j \<in> set order" by (simp only: assms(3))
    then have "j \<in> set pre \<or> j = i \<or> j \<in> set post" unfolding o by auto
    then show "Ping (probed i) \<le> Ping (probed j)" using lt le by force
  qed
  show ?thesis
    apply (rule exI[of _ pre], rule exI[of _ i], rule exI[of _ post])
    using o res same all lt apply simp
    done
qed

lemma tie_task:
  "i < 3 \<Longrightarrow> probeTask tie_world i (three_servers ! i) = Inr (tie_probed i)"
proof -
  assume "i < 3"
  then have "i = 0 \<or> i = 1 \<or> i = 2" by linarith
  then show ?thesis
    by (auto simp: probeTask_def tie_world_def tie_probed_def probing_def serving_def
        three_servers_def server_at_def Let_def fetchHttp_def ok_fetch_def probeLoop.simps
        timesToRunLatency_def dur_add_def wrap64_id durationToMilliSeconds_def
        nanoSecPerMilli_def sdiv_nonneg)
qed

text \<open>
  The servers A, B, C with the means 20, 5 and 5 ms, the tasks taking the lock in the order
  C, A, B: the theorem applies, and the server returned is C, the first recorded of the two
  with the lowest mean.
\<close>

theorem getBestServer_lowest_mean_witness:
  "(\<exists>pre i post. [2, 0, 1] = pre @ i # post \<and>
      getBestServer tie_world [2, 0, 1] three_servers = Inr (tie_probed i, three_servers) \<and>
      tie_probed i = (three_servers ! i)\<lparr>Ping := Ping (tie_probed i)\<rparr> \<and>
      (\<forall>j<length three_servers. Ping (tie_probed i) \<le> Ping (tie_probed j)) \<and>
      (\<forall>j\<in>set pre. Ping (tie_probed i) < Ping (tie_probed j)))
   \<and> getBestServer tie_world [2, 0, 1] three_servers
       = Inr ((server_at ''C'' 0 3)\<lparr>Ping := 5\<rparr>, three_servers)"
proof
  have l: "length three_servers = 3" by (simp add: three_servers_def)
  show "\<exists>pre i post. [2, 0, 1] = pre @ i # post \<and>
      getBestServer tie_world [2, 0, 1] three_servers = Inr (tie_probed i, three_servers) \<and>
      tie_probed i = (three_servers ! i)\<lparr>Ping := Ping (tie_probed i)\<rparr> \<and>
      (\<forall>j<length three_servers. Ping (tie_probed i) \<le> Ping (tie_probed j)) \<and>
      (\<forall>j\<in>set pre. Ping (tie_probed i) < Ping (tie_probed j))"
  proof (rule getBestServer_lowest_mean)
    show "three_servers \<noteq> []" by (simp add: three_servers_def)
    show "distinct [2, 0, 1::nat]" by simp
    show "set [2, 0, 1] = {..<length three_servers}" unfolding l by auto
    show "\<forall>i<length three_servers. probeTask tie_world i (three_servers ! i) = Inr (tie_probed i)"
      unfolding l using tie_task by blast
  qed
  have t: "probeTask tie_world 0 (three_servers ! 0) = Inr (tie_probed 0)"
          "probeTask tie_world 1 (three_servers ! 1) = Inr (tie_probed 1)"
          "probeTask tie_world 2 (three_servers ! 2) = Inr (tie_probed 2)"
    by (simp_all add: tie_task)
  show "getBestServer tie_world [2, 0, 1] three_servers
       = Inr ((server_at ''C'' 0 3)\<lparr>Ping := 5\<rparr>, three_servers)"
    using t unfolding getBestServer_def
    by (simp add: l lockedUpdate_def tie_probed_def three_servers_def)
qed

text \<open>
  Claim C10. \<^verbatim>\<open>getBestServer\<close> does not write to the slice it is given: when it returns,
  the slice holds the servers it held before (so a ping that was zero is still zero), and
  what a task returns is its own copy of the server, changed in the field \<open>Ping\<close> only.
\<close>

theorem getBestServer_leaves_slice:
  assumes "getBestServer w order servers = Inr (best, servers')"
  shows "servers' = servers \<and> map Ping servers' = map Ping servers \<and>
         (\<forall>i server server'. probeTask w i server = Inr server' \<longrightarrow>
            server' = server\<lparr>Ping := Ping server'\<rparr>)"
proof -
  from assms obtain st where
    a: "arrivals w order \<lparr>slice = servers, firstPass = True, bestServer = Server_zero\<rparr> = Inr st"
    and s: "servers' = slice st"
    by (auto simp: getBestServer_def split: sum.splits)
  from arrivals_slice[OF a] s have "servers' = servers" by simp
  then show ?thesis using probeTask_same_server by blast
qed

theorem getBestServer_leaves_slice_witness:
  "getBestServer tie_world [0, 1, 2] three_servers
     = Inr ((server_at ''B'' 0 2)\<lparr>Ping := 5\<rparr>, three_servers)
   \<and> map Ping three_servers = [0, 0, 0]"
proof -
  have l: "length three_servers = 3" by (simp add: three_servers_def)
  have t: "probeTask tie_world 0 (three_servers ! 0) = Inr (tie_probed 0)"
          "probeTask tie_world 1 (three_servers ! 1) = Inr (tie_probed 1)"
          "probeTask tie_world 2 (three_servers ! 2) = Inr (tie_probed 2)"
    by (simp_all add: tie_task)
  have "\<exists>servers'. getBestServer tie_world [0, 1, 2] three_servers
       = Inr ((server_at ''B'' 0 2)\<lparr>Ping := 5\<rparr>, servers')"
    using t unfolding getBestServer_def
    by (simp add: l lockedUpdate_def tie_probed_def three_servers_def)
  then obtain servers' where r: "getBestServer tie_world [0, 1, 2] three_servers
       = Inr ((server_at ''B'' 0 2)\<lparr>Ping := 5\<rparr>, servers')" ..
  from getBestServer_leaves_slice[OF r] have "servers' = three_servers" by simp
  with r show ?thesis by (simp add: three_servers_def server_at_def)
qed

section \<open>The best server: the mean latency\<close>

lemma probeLoop_sum:
  shows "\<forall>k<timesToRunLatency. 0 \<le> fetch_dur (fetch k) \<and> fetch_dur (fetch k) < 2 ^ 60 \<Longrightarrow>
         i \<le> timesToRunLatency \<Longrightarrow> 0 \<le> t \<Longrightarrow> t < (int i + 1) * 2 ^ 60 \<Longrightarrow>
         probeLoop fetch i t =
           t + sum_list (map (\<lambda>k. fetch_dur (fetch k))
                 (takeWhile (\<lambda>k. fetch_ok (fetch k)) [i..<timesToRunLatency]))"
proof (induction fetch i t rule: probeLoop.induct)
  case (1 fetch i totalDur)
  show ?case
  proof (cases "i < timesToRunLatency")
    case False
    then show ?thesis by (subst probeLoop.simps) simp
  next
    case True
    obtain b d e where f: "fetchHttp (fetch i) = (b, d, e)" by (cases "fetchHttp (fetch i)") auto
    then have okd: "fetch_ok (fetch i) = (e = None)" "fetch_dur (fetch i) = d"
      by (simp_all add: fetch_ok_def fetch_dur_def)
    have upt: "[i..<timesToRunLatency] = i # [i + 1..<timesToRunLatency]"
      using True by (simp add: upt_conv_Cons)
    show ?thesis
    proof (cases e)
      case (Some err)
      then show ?thesis using True f okd upt by (subst probeLoop.simps) simp
    next
      case None
      have d: "0 \<le> d" "d < 2 ^ 60" using "1.prems"(1) True okd by auto
      have i5: "int i < 5" using True by (simp add: timesToRunLatency_def)
      have lt: "totalDur + d < (int i + 2) * 2 ^ 60"
        using "1.prems"(4) d by (simp add: algebra_simps)
      have "(int i + 2) * 2 ^ 60 \<le> (7::int) * 2 ^ 60" using i5 by simp
      then have "totalDur + d < 2 ^ 63" using lt by simp
      then have w: "dur_add totalDur d = totalDur + d"
        using "1.prems"(3) d by (simp add: dur_add_def wrap64_id)
      have "probeLoop fetch (i + 1) (dur_add totalDur d) =
            dur_add totalDur d + sum_list (map (\<lambda>k. fetch_dur (fetch k))
                 (takeWhile (\<lambda>k. fetch_ok (fetch k)) [i + 1..<timesToRunLatency]))"
        using True f None "1.prems"(1,3) d lt w
        by (intro "1.IH"[OF True f[symmetric] refl]) (simp_all add: algebra_simps)
      then show ?thesis using True f None okd upt w by (subst probeLoop.simps) simp
    qed
  qed
qed

lemma upt_5: "[0..<5] = [0, 1, 2, 3, 4::nat]"
  by (simp add: upt_rec)

text \<open>
  Claim C6, as stated, fails. The server's first probe takes 4999999 ns, its second probe
  fails, its other probes would take 10 ms each, and the task's accumulator starts at the
  1 ns that \<^verbatim>\<open>time.Since(time.Now())\<close> returned. The code leaves the loop at the failure and
  records the ping 1. The sum of the successful probes of the five is 34999999 ns, which
  the claim turns into 34 ms and a mean of 6; even the probes made before the failure
  alone sum to 4 ms and a mean of 0.
\<close>

theorem probeTask_mean_counterexample:
  "probeTask (flaky_world 1) 0 (server_at ''A'' 0 1)
     = Inr ((server_at ''A'' 0 1)\<lparr>Ping := 1\<rparr>)
   \<and> spec_meanLatency (flaky 0) = 6
   \<and> mean_before_failure (flaky 0) = 0"
proof -
  have a: "probeTask (flaky_world 1) 0 (server_at ''A'' 0 1)
     = Inr ((server_at ''A'' 0 1)\<lparr>Ping := 1\<rparr>)"
    by (simp add: probeTask_def flaky_world_def probing_def serving_def flaky_def
        server_at_def Let_def fetchHttp_def ok_fetch_def failed_fetch_def probeLoop.simps
        timesToRunLatency_def dur_add_def wrap64_id durationToMilliSeconds_def
        nanoSecPerMilli_def sdiv_nonneg)
  have b: "spec_meanLatency (flaky 0) = 6"
    by (simp add: spec_meanLatency_def flaky_def fetch_ok_def fetch_dur_def fetchHttp_def
        ok_fetch_def failed_fetch_def timesToRunLatency_def upt_5 nanoSecPerMilli_def
        sdiv_nonneg)
  have c: "mean_before_failure (flaky 0) = 0"
    by (simp add: mean_before_failure_def flaky_def fetch_ok_def fetch_dur_def fetchHttp_def
        ok_fetch_def failed_fetch_def timesToRunLatency_def upt_5 nanoSecPerMilli_def
        sdiv_nonneg)
  show ?thesis using a b c by simp
qed

text \<open>
  Claim C6, amended. For a server whose URL parses, whose task starts its accumulator at
  zero and whose probes return durations between 0 and \<open>2^60\<close> ns, the ping the task
  records is the sum of the durations of the probes that succeed before the first failing
  probe, converted to whole milliseconds and divided by 5, both divisions truncating: the
  loop stops at the first failure, a failed probe adds nothing and the divisor stays 5.
\<close>

theorem probeTask_mean_before_failure:
  assumes "urlParse w (Url server) = Inr u0"
      and "probeSinceNow w i = 0"
      and "\<forall>k<timesToRunLatency.
             0 \<le> fetch_dur (probeFetch w i k (urlString w (u0\<lparr>Path := ''/latency.txt''\<rparr>))) \<and>
             fetch_dur (probeFetch w i k (urlString w (u0\<lparr>Path := ''/latency.txt''\<rparr>))) < 2 ^ 60"
  shows "probeTask w i server =
           Inr (server\<lparr>Ping := mean_before_failure
                  (\<lambda>k. probeFetch w i k (urlString w (u0\<lparr>Path := ''/latency.txt''\<rparr>)))\<rparr>)"
proof -
  let ?f = "\<lambda>k. probeFetch w i k (urlString w (u0\<lparr>Path := ''/latency.txt''\<rparr>))"
  have "probeLoop ?f 0 0 =
          0 + sum_list (map (\<lambda>k. fetch_dur (?f k))
                 (takeWhile (\<lambda>k. fetch_ok (?f k)) [0..<timesToRunLatency]))"
    by (rule probeLoop_sum) (use assms(3) in simp_all)
  then show ?thesis
    using assms(1,2)
    by (simp add: probeTask_def Let_def mean_before_failure_def durationToMilliSeconds_def)
qed

text \<open>
  A server whose probes take 30 ms and 20 ms before the third one fails: the ping is
  50 ms divided by 5.
\<close>

theorem probeTask_mean_before_failure_witness:
  "probeTask flaky_later_world 0 (server_at ''A'' 0 1)
     = Inr ((server_at ''A'' 0 1)\<lparr>Ping := mean_before_failure (flaky_later 0)\<rparr>)
   \<and> mean_before_failure (flaky_later 0) = 10"
proof -
  let ?w = "flaky_later_world"
  have p: "urlParse ?w (Url (server_at ''A'' 0 1))
        = Inr \<lparr>Scheme = ''http'', URL_Host = ''A.example.com'', Path = ''/speedtest/upload.php'',
               RawQuery = [], Fragment = []\<rparr>"
    by (simp add: flaky_later_world_def probing_def serving_def server_at_def)
  have t: "probeSinceNow ?w 0 = 0"
    by (simp add: flaky_later_world_def probing_def)
  have f: "\<And>k u. probeFetch ?w 0 k u = flaky_later 0 k"
    by (simp add: flaky_later_world_def probing_def)
  have r: "\<forall>k<timesToRunLatency. 0 \<le> fetch_dur (flaky_later 0 k) \<and> fetch_dur (flaky_later 0 k) < 2 ^ 60"
  proof (intro allI impI)
    fix k assume "k < timesToRunLatency"
    then have "k = 0 \<or> k = 1 \<or> k = 2 \<or> k = 3 \<or> k = 4"
      by (simp add: timesToRunLatency_def) linarith
    then show "0 \<le> fetch_dur (flaky_later 0 k) \<and> fetch_dur (flaky_later 0 k) < 2 ^ 60"
      by (auto simp: flaky_later_def fetch_dur_def fetchHttp_def ok_fetch_def failed_fetch_def)
  qed
  have c: "mean_before_failure (flaky_later 0) = 10"
    by (simp add: mean_before_failure_def flaky_later_def fetch_ok_def fetch_dur_def
        fetchHttp_def ok_fetch_def failed_fetch_def timesToRunLatency_def upt_5
        nanoSecPerMilli_def sdiv_nonneg)
  show ?thesis
    using probeTask_mean_before_failure[of ?w "server_at ''A'' 0 1" _ 0, OF p t] r c
    by (simp add: f)
qed

section \<open>Configuration and server list: decoding errors\<close>

lemma getConfig_ignores_decode_error:
  "getConfig (w\<lparr>unmarshalConfig := (\<lambda>data c. (cfg, e))\<rparr>)
     = getConfig (w\<lparr>unmarshalConfig := (\<lambda>data c. (cfg, None))\<rparr>)"
  by (simp add: getConfig_def split: prod.splits option.splits)

text \<open>
  Claim C8. The claim is that a body whose XML does not decode aborts the run as a fatal
  error, and that the run never continues with a partially decoded record. The code
  discards what \<^verbatim>\<open>xml.Unmarshal\<close> returns. In a world where both documents are cut off
  before \<^verbatim>\<open></settings>\<close> and the decoder reports a syntax error after decoding one client
  and one group with one server, \<^verbatim>\<open>getConfig\<close> returns the partial configuration,
  \<^verbatim>\<open>getClient\<close> takes its client, and \<^verbatim>\<open>getClosestServers\<close> ranks the partial server list:
  nothing is fatal.
\<close>

theorem malformed_xml_not_fatal:
  "getConfig truncated_world
     = Inr (Config_zero\<lparr>Config_XMLName := ''settings'', Clients := [client_at 0 0]\<rparr>)
   \<and> getClient (Config_zero\<lparr>Config_XMLName := ''settings'', Clients := [client_at 0 0]\<rparr>)
     = Inr (client_at 0 0)
   \<and> getClosestServers truncated_world (client_at 0 0)
       = Inr [(server_at ''A'' 0 1)\<lparr>Distance :=
                distance \<lparr>Point_Lat = 0, Point_Long = 0\<rparr> \<lparr>Point_Lat = 0, Point_Long = 1\<rparr>\<rparr>]"
  by (simp add: getConfig_def getClient_def getClosestServers_def truncated_world_def
      serving_def fetchHttp_def ok_fetch_def closest_def closestStep_def Let_def
      server_at_def client_at_def Servers_zero_def configUrl_def serversUrl_def)

section \<open>The producer of URLs\<close>

lemma last_line_parts:
  "fst (last_line p) @ snd (last_line p) = p"
  "CHR 0x0A \<notin> set (snd (last_line p))"
  "fst (last_line p) = [] \<or> last (fst (last_line p)) = CHR 0x0A"
proof -
  let ?nl = "\<lambda>c. c \<noteq> CHR 0x0A"
  have "rev (dropWhile ?nl (rev p)) @ rev (takeWhile ?nl (rev p))
      = rev (takeWhile ?nl (rev p) @ dropWhile ?nl (rev p))"
    by (simp only: rev_append)
  also have "\<dots> = p" by (simp only: takeWhile_dropWhile_id rev_rev_ident)
  finally show "fst (last_line p) @ snd (last_line p) = p" by (simp add: last_line_def)
  show "CHR 0x0A \<notin> set (snd (last_line p))"
    using set_takeWhileD[of "CHR 0x0A" ?nl "rev p"] by (auto simp: last_line_def)
  show "fst (last_line p) = [] \<or> last (fst (last_line p)) = CHR 0x0A"
  proof (cases "dropWhile ?nl (rev p)")
    case Nil
    then show ?thesis by (simp add: last_line_def)
  next
    case (Cons c cs)
    then have "\<not> ?nl c" using hd_dropWhile[of ?nl "rev p"] by auto
    then show ?thesis using Cons by (simp add: last_line_def)
  qed
qed

lemma last_line_append:
  assumes "pre = [] \<or> last pre = CHR 0x0A" and "CHR 0x0A \<notin> set t"
  shows "last_line (pre @ t) = (pre, t)"
proof -
  let ?nl = "\<lambda>c. c \<noteq> CHR 0x0A"
  have t: "\<forall>c\<in>set (rev t). ?nl c" using assms(2) by auto
  have p: "takeWhile ?nl (rev pre) = [] \<and> dropWhile ?nl (rev pre) = rev pre"
  proof (cases pre rule: rev_cases)
    case Nil
    then show ?thesis by simp
  next
    case (snoc ys y)
    then show ?thesis using assms(1) by simp
  qed
  have "takeWhile ?nl (rev t @ rev pre) = rev t @ takeWhile ?nl (rev pre)"
    by (rule takeWhile_append2) (use assms(2) in auto)
  moreover have "dropWhile ?nl (rev t @ rev pre) = dropWhile ?nl (rev pre)"
    by (rule dropWhile_append2) (use assms(2) in auto)
  ultimately show ?thesis using p by (simp add: last_line_def)
qed

lemma set_tl_subset: "set (tl xs) \<subseteq> set xs"
  by (cases xs) auto

lemma group1_prefix:
  assumes "group1 t = Some g"
  shows "set g \<subseteq> set t"
proof -
  let ?sl = "\<lambda>c. c \<noteq> CHR ''/''"
  from assms have g: "g = rev (tl (dropWhile ?sl (rev (butlast t))))"
    by (auto simp: group1_def split: if_splits)
  have "set (tl (dropWhile ?sl (rev (butlast t)))) \<subseteq> set (dropWhile ?sl (rev (butlast t)))"
    by (rule set_tl_subset)
  also have "\<dots> \<subseteq> set (rev (butlast t))" by (rule set_dropWhileD[THEN subsetI])
  also have "\<dots> \<subseteq> set t" by (auto dest: in_set_butlastD)
  finally show ?thesis using g by simp
qed

lemma group1_append:
  assumes "nm \<noteq> []" and "CHR ''/'' \<notin> set nm"
  shows "group1 (g @ ''/'' @ nm) = Some g"
proof -
  let ?sl = "\<lambda>c. c \<noteq> CHR ''/''"
  have b: "butlast (g @ ''/'' @ nm) = g @ ''/'' @ butlast nm"
    using assms(1) by (simp add: butlast_append)
  have n: "\<forall>c\<in>set (rev (butlast nm)). ?sl c"
    using assms(2) by (auto dest: in_set_butlastD)
  have "dropWhile ?sl (rev (butlast nm) @ CHR ''/'' # rev g) = dropWhile ?sl (CHR ''/'' # rev g)"
    by (rule dropWhile_append2) (use n in auto)
  then show ?thesis unfolding group1_def b by simp
qed

lemma replace_stable:
  assumes "group1 (snd (last_line p)) = Some g"
      and "nm \<noteq> []" and "CHR ''/'' \<notin> set nm" and "CHR 0x0A \<notin> set nm"
  shows "re_ReplaceAllString (fst (last_line p) @ g @ ''/'' @ nm) rest = fst (last_line p) @ g @ rest"
proof -
  have "CHR 0x0A \<notin> set g"
    using group1_prefix[OF assms(1)] last_line_parts(2)[of p] by auto
  then have "CHR 0x0A \<notin> set (g @ ''/'' @ nm)" using assms(4) by simp
  then have "last_line (fst (last_line p) @ (g @ ''/'' @ nm)) = (fst (last_line p), g @ ''/'' @ nm)"
    using last_line_parts(3)[of p] by (intro last_line_append) auto
  then show ?thesis
    using group1_append[OF assms(2,3), of g] by (simp add: re_ReplaceAllString_def)
qed

lemma image_name_shape:
  assumes "sz \<in> set downloadSizes"
  shows "\<exists>nm. ''/random'' @ Itoa sz @ ''x'' @ Itoa sz @ ''.jpg'' = ''/'' @ nm \<and> nm \<noteq> [] \<and>
              CHR ''/'' \<notin> set nm \<and> CHR 0x0A \<notin> set nm"
proof -
  from assms have "sz = 350 \<or> sz = 500 \<or> sz = 750 \<or> sz = 1000 \<or> sz = 1500 \<or>
      sz = 2000 \<or> sz = 2500 \<or> sz = 3000 \<or> sz = 3500 \<or> sz = 4000"
    by (simp add: downloadSizes_def)
  then show ?thesis
    by (elim disjE) (simp_all add: Itoa_def digits.simps)
qed

lemma replace_image:
  assumes "group1 (snd (last_line p)) = Some g" and "sz \<in> set downloadSizes"
  shows "re_ReplaceAllString (image_path (fst (last_line p) @ g) sz) rest = fst (last_line p) @ g @ rest"
proof -
  from image_name_shape[OF assms(2)] obtain nm where
    nm: "''/random'' @ Itoa sz @ ''x'' @ Itoa sz @ ''.jpg'' = ''/'' @ nm" "nm \<noteq> []"
        "CHR ''/'' \<notin> set nm" "CHR 0x0A \<notin> set nm"
    by blast
  have "image_path (fst (last_line p) @ g) sz = fst (last_line p) @ g @ ''/'' @ nm"
    unfolding image_path_def using nm(1) by simp
  then show ?thesis using replace_stable[OF assms(1) nm(2,3,4)] by simp
qed

lemma emit_image:
  assumes "\<forall>rest. re_ReplaceAllString q rest = base @ rest"
  shows "emit w sz (u\<lparr>Path := q\<rparr>, out) =
           (u\<lparr>Path := image_path base sz\<rparr>, out @ [urlString w (u\<lparr>Path := image_path base sz\<rparr>)])"
proof -
  have "re_ReplaceAllString q (''/random'' @ Itoa sz @ ''x'' @ Itoa sz @ ''.jpg'')
      = image_path base sz"
    unfolding image_path_def using assms by blast
  then show ?thesis
    unfolding emit_def Let_def by simp
qed

lemma emit_repeat:
  assumes "group1 (snd (last_line p)) = Some g" and "sz \<in> set downloadSizes"
      and "\<forall>rest. re_ReplaceAllString q rest = (fst (last_line p) @ g) @ rest"
  shows "(emit w sz ^^ Suc n) (u\<lparr>Path := q\<rparr>, out) =
           (u\<lparr>Path := image_path (fst (last_line p) @ g) sz\<rparr>,
            out @ replicate (Suc n) (urlString w (u\<lparr>Path := image_path (fst (last_line p) @ g) sz\<rparr>)))"
proof (induction n)
  case 0
  show ?case using emit_image[OF assms(3)] by simp
next
  case (Suc n)
  let ?U = "u\<lparr>Path := image_path (fst (last_line p) @ g) sz\<rparr>"
  have st: "\<forall>rest. re_ReplaceAllString (image_path (fst (last_line p) @ g) sz) rest
              = (fst (last_line p) @ g) @ rest"
    using replace_image[OF assms(1,2)] by simp
  have "(emit w sz ^^ Suc (Suc n)) (u\<lparr>Path := q\<rparr>, out)
          = emit w sz ((emit w sz ^^ Suc n) (u\<lparr>Path := q\<rparr>, out))"
    by simp
  also have "\<dots> = emit w sz (u\<lparr>Path := image_path (fst (last_line p) @ g) sz\<rparr>,
                       out @ replicate (Suc n) (urlString w ?U))"
    by (simp only: Suc.IH)
  also have "\<dots> = (?U, (out @ replicate (Suc n) (urlString w ?U)) @ [urlString w ?U])"
    using emit_image[OF st, of w sz u] by simp
  also have "\<dots> = (?U, out @ replicate (Suc (Suc n)) (urlString w ?U))"
    by (simp add: replicate_append_same)
  finally show ?case .
qed

lemma emit_all:
  assumes "group1 (snd (last_line p)) = Some g" and "set szs \<subseteq> set downloadSizes"
      and "\<forall>rest. re_ReplaceAllString q rest = (fst (last_line p) @ g) @ rest"
  shows "snd (fold (\<lambda>sz. emit w sz ^^ Suc n) szs (u\<lparr>Path := q\<rparr>, out)) =
           out @ concat (map (\<lambda>sz. replicate (Suc n)
                  (urlString w (u\<lparr>Path := image_path (fst (last_line p) @ g) sz\<rparr>))) szs)"
  using assms(2,3)
proof (induction szs arbitrary: q out)
  case Nil
  then show ?case by simp
next
  case (Cons sz szs)
  have sz: "sz \<in> set downloadSizes" and rest: "set szs \<subseteq> set downloadSizes"
    using Cons.prems(1) by auto
  have st: "\<forall>rest. re_ReplaceAllString (image_path (fst (last_line p) @ g) sz) rest
              = (fst (last_line p) @ g) @ rest"
    using replace_image[OF assms(1) sz] by simp
  show ?case
    using Cons.IH[OF rest st] emit_repeat[OF assms(1) sz Cons.prems(2), where w=w and n=n and u=u and out=out]
    by simp
qed

lemma concat_replicate_map:
  "concat (map (\<lambda>x. replicate n (f x)) xs) = map f (concat (map (replicate n) xs))"
  by (induction xs) simp_all

lemma emit_no_match:
  assumes "group1 (snd (last_line (Path u))) = None"
  shows "emit w sz (u, out) = (u, out @ [urlString w u])"
proof -
  have "re_ReplaceAllString (Path u) (''/random'' @ Itoa sz @ ''x'' @ Itoa sz @ ''.jpg'') = Path u"
    using assms by (simp add: re_ReplaceAllString_def)
  then show ?thesis unfolding emit_def Let_def by simp
qed

lemma emit_no_match_repeat:
  assumes "group1 (snd (last_line (Path u))) = None"
  shows "(emit w sz ^^ n) (u, out) = (u, out @ replicate n (urlString w u))"
proof (induction n)
  case 0
  then show ?case by simp
next
  case (Suc n)
  then show ?case using emit_no_match[OF assms] by (simp add: replicate_append_same)
qed

lemma emit_no_match_all:
  assumes "group1 (snd (last_line (Path u))) = None"
  shows "fold (\<lambda>sz. emit w sz ^^ n) szs (u, out) = (u, out @ replicate (n * length szs) (urlString w u))"
proof (induction szs arbitrary: out)
  case Nil
  then show ?case by simp
next
  case (Cons sz szs)
  show ?case
    using Cons.IH[of "out @ replicate n (urlString w u)"] emit_no_match_repeat[OF assms, where w=w and sz=sz and n=n and out=out]
    by (simp add: replicate_add)
qed

text \<open>
  When the path of the server's URL has, in its last line, a slash followed by at least one
  character (\<open>group1\<close> finds the directory \<open>g\<close> before the last such slash), the producer
  sends exactly 40 URLs and then closes the channel: for each of the sizes 350, 500, 750,
  1000, 1500, 2000, 2500, 3000, 3500, 4000, in this order, four consecutive times the URL
  of the server with the last segment of its path replaced by \<^verbatim>\<open>random<size>x<size>.jpg\<close>.
\<close>

lemma producer_urls:
  assumes "group1 (snd (last_line (Path u))) = Some g"
  shows "producer w u =
           map (\<lambda>sz. Send (urlString w (u\<lparr>Path := image_path (fst (last_line (Path u)) @ g) sz\<rparr>)))
             (concat (map (replicate 4) [350, 500, 750, 1000, 1500, 2000, 2500, 3000, 3500, 4000]))
           @ [Close]"
proof -
  let ?F = "\<lambda>sz. urlString w (u\<lparr>Path := image_path (fst (last_line (Path u)) @ g) sz\<rparr>)"
  have q: "\<forall>rest. re_ReplaceAllString (Path u) rest = (fst (last_line (Path u)) @ g) @ rest"
    using assms by (simp add: re_ReplaceAllString_def)
  have u: "u\<lparr>Path := Path u\<rparr> = u" by simp
  have d: "duplicateDownloads = Suc 3" by (simp add: duplicateDownloads_def)
  have four: "Suc 3 = 4" by simp
  have "snd (fold (\<lambda>sz. emit w sz ^^ Suc 3) downloadSizes (u\<lparr>Path := Path u\<rparr>, [])) =
          [] @ concat (map (\<lambda>sz. replicate (Suc 3) (?F sz)) downloadSizes)"
    by (rule emit_all[OF assms _ q]) simp
  then have "snd (fold (\<lambda>sz. emit w sz ^^ Suc 3) downloadSizes (u, [])) =
          map ?F (concat (map (replicate (Suc 3)) downloadSizes))"
    by (simp only: u append_Nil concat_replicate_map[of "Suc 3" ?F downloadSizes])
  then have "producer w u = map Send (map ?F (concat (map (replicate 4) downloadSizes))) @ [Close]"
    by (simp only: producer_def d four)
  then show ?thesis
    by (simp only: map_map comp_def downloadSizes_def)
qed

text \<open>For the path \<^verbatim>\<open>/speedtest/upload.php\<close>:\<close>

lemma producer_urls_example:
  "producer (serving [])
     \<lparr>Scheme = ''http'', URL_Host = ''A.example.com'', Path = ''/speedtest/upload.php'',
      RawQuery = [], Fragment = []\<rparr>
   = map (\<lambda>sz. Send (''http://A.example.com/speedtest/random'' @ Itoa sz @ ''x'' @ Itoa sz @ ''.jpg''))
       (concat (map (replicate 4) [350, 500, 750, 1000, 1500, 2000, 2500, 3000, 3500, 4000]))
     @ [Close]
   \<and> Itoa 350 = ''350''"
proof -
  let ?u = "\<lparr>Scheme = ''http'', URL_Host = ''A.example.com'', Path = ''/speedtest/upload.php'',
      RawQuery = [], Fragment = []\<rparr>"
  have g: "group1 (snd (last_line (Path ?u))) = Some ''/speedtest''"
    by (simp add: group1_def last_line_def)
  have f: "fst (last_line (Path ?u)) = []" by (simp add: last_line_def)
  have i: "Itoa 350 = ''350''" by (simp add: Itoa_def digits.simps)
  have us: "\<And>sz. urlString (serving []) (?u\<lparr>Path := image_path (fst (last_line (Path ?u)) @ ''/speedtest'') sz\<rparr>)
      = ''http://A.example.com/speedtest/random'' @ Itoa sz @ ''x'' @ Itoa sz @ ''.jpg''"
    by (simp add: last_line_def image_path_def serving_def)
  have "producer (serving []) ?u
      = map (\<lambda>sz. Send (''http://A.example.com/speedtest/random'' @ Itoa sz @ ''x'' @ Itoa sz @ ''.jpg''))
          (concat (map (replicate 4) [350, 500, 750, 1000, 1500, 2000, 2500, 3000, 3500, 4000]))
        @ [Close]"
    using producer_urls[OF g, of "serving []"] by (simp only: us)
  then show ?thesis using i by (rule conjI)
qed

text \<open>
  Claim C7. The claim is that the producer sends, for each of the 10 sizes in ascending
  order, 4 consecutive times a URL that asks for \<^verbatim>\<open>random<size>x<size>.jpg\<close> on the selected
  server, 40 URLs in all, and then closes the channel. The code builds that path by
  replacing what \<^verbatim>\<open>(.*)/(.+?)$\<close> matches in the path of the server's URL.
  \<^verbatim>\<open>url.Parse("http://example.com/")\<close> has the path \<^verbatim>\<open>/\<close>, in which no slash is followed by a
  character: the regular expression does not match, the path stays as it is, and the
  producer sends the URL of the server itself 40 times, then closes the channel. No URL
  asks for an image.
\<close>

theorem producer_keeps_path:
  "urlParse (serving []) ''http://example.com/''
     = Inr \<lparr>Scheme = ''http'', URL_Host = ''example.com'', Path = ''/'', RawQuery = [], Fragment = []\<rparr>
   \<and> producer (serving [])
       \<lparr>Scheme = ''http'', URL_Host = ''example.com'', Path = ''/'', RawQuery = [], Fragment = []\<rparr>
     = replicate 40 (Send ''http://example.com/'') @ [Close]"
proof -
  let ?u = "\<lparr>Scheme = ''http'', URL_Host = ''example.com'', Path = ''/'', RawQuery = [], Fragment = []\<rparr>"
  have n: "group1 (snd (last_line (Path ?u))) = None"
    by (simp add: group1_def last_line_def)
  have "producer (serving []) ?u = replicate 40 (Send (urlString (serving []) ?u)) @ [Close]"
    unfolding producer_def emit_no_match_all[OF n]
    by (simp add: duplicateDownloads_def downloadSizes_def)
  moreover have "urlString (serving []) ?u = ''http://example.com/''"
    by (simp add: serving_def)
  moreover have "urlParse (serving []) ''http://example.com/'' = Inr ?u"
    by (simp add: serving_def)
  ultimately show ?thesis by simp
qed

section \<open>The consumers and the aggregate\<close>

lemma sum_list_map_update:
  fixes f :: "'a \<Rightarrow> 'b::ab_group_add"
  shows "k < length xs \<Longrightarrow>
         sum_list (map f (xs[k := v])) = sum_list (map f xs) - f (xs ! k) + f v"
proof (induction xs arbitrary: k)
  case Nil
  then show ?case by simp
next
  case (Cons x xs)
  then show ?case by (cases k) (simp_all add: algebra_simps)
qed

lemma sum_list_nonneg_member:
  fixes f :: "'a \<Rightarrow> int"
  assumes "\<forall>x\<in>set xs. 0 \<le> f x" and "k < length xs"
  shows "f (xs ! k) \<le> sum_list (map f xs)"
  using assms
proof (induction xs arbitrary: k)
  case Nil
  then show ?case by simp
next
  case (Cons x xs)
  show ?case
  proof (cases k)
    case 0
    have "0 \<le> sum_list (map f xs)" using Cons.prems(1) by (intro sum_list_nonneg) auto
    then show ?thesis using 0 by simp
  next
    case (Suc j)
    then have "f (xs ! j) \<le> sum_list (map f xs)" using Cons by auto
    moreover have "0 \<le> f x" using Cons.prems(1) by simp
    ultimately show ?thesis using Suc by simp
  qed
qed

lemma sum_list_zero:
  fixes f :: "'a \<Rightarrow> 'b::comm_monoid_add"
  shows "\<forall>x\<in>set xs. f x = 0 \<Longrightarrow> sum_list (map f xs) = 0"
  by (induction xs) simp_all

lemma step_inv:
  assumes "inv w urls t0 s" and "step w m s = Some s'"
      and nonneg: "\<forall>j<length urls. 0 \<le> fst (snd (got w urls j))"
      and bound: "t0 + (\<Sum>j<length urls. fst (snd (got w urls j))) < 2 ^ 63"
  shows "inv w urls t0 s' \<and> length (consumers s') = length (consumers s)"
proof (cases m)
  case (Receive k)
  from assms(2) Receive have k: "k < length (consumers s)" "consumers s ! k = Receiving"
    by (auto split: if_splits)
  from assms(1) have chs: "ch s = map Send (drop (requests s) urls) @ [Close]"
    and le: "requests s \<le> length urls" by (auto simp: inv_def)
  show ?thesis
  proof (cases "requests s < length urls")
    case True
    then have d: "drop (requests s) urls = urls ! requests s # drop (Suc (requests s)) urls"
      by (simp add: Cons_nth_drop_Suc)
    obtain b d' e where f: "got w urls (requests s) = (b, d', e)"
      by (cases "got w urls (requests s)") auto
    have s': "s' = s\<lparr>ch := map Send (drop (Suc (requests s)) urls) @ [Close],
                     requests := requests s + 1,
                     consumers := (consumers s)[k := Fetched b d']\<rparr>"
      using assms(2) Receive k chs d f by (simp add: got_def)
    have nex: "Exited \<notin> set (consumers s)"
      using assms(1) True by (auto simp: inv_def)
    have ex': "Exited \<notin> set ((consumers s)[k := Fetched b d'])"
      using nex by (auto dest: set_update_subset_insert[THEN subsetD])
    have d0: "0 \<le> d'" using nonneg True f by auto
    have hd: "\<forall>c\<in>set ((consumers s)[k := Fetched b d']). 0 \<le> held_dur c"
      using assms(1) d0 by (auto simp: inv_def dest!: set_update_subset_insert[THEN subsetD])
    show ?thesis
      using assms(1) True k f d0 ex' hd
      by (simp add: inv_def s' sum_list_map_update)
  next
    case False
    then have r: "requests s = length urls" using le by simp
    then have s': "s' = s\<lparr>consumers := (consumers s)[k := Exited]\<rparr>"
      using assms(2) Receive k chs by simp
    have hd: "\<forall>c\<in>set ((consumers s)[k := Exited]). 0 \<le> held_dur c"
      using assms(1) by (auto simp: inv_def dest!: set_update_subset_insert[THEN subsetD])
    show ?thesis
      using assms(1) r k hd by (simp add: inv_def s' sum_list_map_update)
  qed
next
  case (Accumulate k)
  from assms(2) Accumulate obtain b d where k: "k < length (consumers s)"
    "consumers s ! k = Fetched b d"
    by (auto split: if_splits consumer.splits)
  have s0: "s' = s\<lparr>totalBytes := totalBytes s + real (length b),
                   totalDur := dur_add (totalDur s) d,
                   consumers := (consumers s)[k := Receiving]\<rparr>"
    using assms(2) Accumulate k by simp
  have hnn: "\<forall>c\<in>set (consumers s). 0 \<le> held_dur c" using assms(1) by (simp add: inv_def)
  have "held_dur (consumers s ! k) \<le> sum_list (map held_dur (consumers s))"
    using hnn k(1) by (rule sum_list_nonneg_member)
  then have dle: "d \<le> sum_list (map held_dur (consumers s))" using k by simp
  have d0: "0 \<le> d" using hnn k nth_mem[OF k(1)] by force
  have t: "0 \<le> totalDur s" using assms(1) by (simp add: inv_def)
  have "(\<Sum>j<requests s. fst (snd (got w urls j))) \<le> (\<Sum>j<length urls. fst (snd (got w urls j)))"
  proof (rule sum_mono2)
    show "finite {..<length urls}" by simp
    show "{..<requests s} \<subseteq> {..<length urls}" using assms(1) by (auto simp: inv_def)
    show "\<And>b. b \<in> {..<length urls} - {..<requests s} \<Longrightarrow> 0 \<le> fst (snd (got w urls b))"
      using nonneg by auto
  qed
  moreover have "totalDur s + sum_list (map held_dur (consumers s))
       = t0 + (\<Sum>j<requests s. fst (snd (got w urls j)))"
    using assms(1) by (simp add: inv_def)
  ultimately have "totalDur s + d < 2 ^ 63" using dle bound by linarith
  then have w: "dur_add (totalDur s) d = totalDur s + d"
    using t d0 by (simp add: dur_add_def wrap64_id)
  have ex: "Exited \<in> set ((consumers s)[k := Receiving]) \<Longrightarrow> Exited \<in> set (consumers s)"
    by (auto dest: set_update_subset_insert[THEN subsetD])
  have hd: "\<forall>c\<in>set ((consumers s)[k := Receiving]). 0 \<le> held_dur c"
    using hnn by (auto dest!: set_update_subset_insert[THEN subsetD])
  show ?thesis
    using assms(1) k t d0 ex hd
    by (auto simp: inv_def s0 w sum_list_map_update)
qed

lemma run_inv:
  assumes nonneg: "\<forall>j<length urls. 0 \<le> fst (snd (got w urls j))"
      and bound: "t0 + (\<Sum>j<length urls. fst (snd (got w urls j))) < 2 ^ 63"
  shows "inv w urls t0 s \<Longrightarrow> run w ms s = Some s' \<Longrightarrow>
         inv w urls t0 s' \<and> length (consumers s') = length (consumers s)"
proof (induction ms arbitrary: s)
  case Nil
  then show ?case by simp
next
  case (Cons m ms)
  from Cons.prems(2) obtain s1 where s1: "step w m s = Some s1" and r: "run w ms s1 = Some s'"
    by (auto split: option.splits)
  from step_inv[OF Cons.prems(1) s1 nonneg bound]
  have i1: "inv w urls t0 s1" and l1: "length (consumers s1) = length (consumers s)" by auto
  from Cons.IH[OF i1 r] l1 show ?case by simp
qed

lemma inv_init:
  assumes "0 \<le> t0"
  shows "inv w urls t0 \<lparr>ch = map Send urls @ [Close], requests = 0,
            consumers = replicate n Receiving, totalBytes = 0, totalDur = t0\<rparr>"
proof -
  have "sum_list (map held_bytes (replicate n Receiving)) = 0" by (induction n) simp_all
  moreover have "sum_list (map held_dur (replicate n Receiving)) = 0" by (induction n) simp_all
  ultimately show ?thesis using assms by (auto simp: inv_def)
qed

lemma inv_finished:
  assumes "inv w urls t0 s" and "finished s" and "consumers s \<noteq> []"
  shows "totalBytes s = (\<Sum>j<length urls. real (length (fst (got w urls j)))) \<and>
         totalDur s = t0 + (\<Sum>j<length urls. fst (snd (got w urls j)))"
proof -
  from assms(2) have all: "\<forall>c\<in>set (consumers s). c = Exited"
    by (simp add: finished_def list_all_iff)
  then have "Exited \<in> set (consumers s)" using assms(3) by (cases "consumers s") auto
  then have r: "requests s = length urls" using assms(1) by (simp add: inv_def)
  have b: "sum_list (map held_bytes (consumers s)) = 0"
    using all by (intro sum_list_zero) auto
  have d: "sum_list (map held_dur (consumers s)) = 0"
    using all by (intro sum_list_zero) auto
  show ?thesis using assms(1) r b d by (simp add: inv_def)
qed

lemma Seconds_real: "Seconds d = real_of_int d / 1000000000"
proof -
  have "d = (d sdiv 1000000000) * 1000000000 + d smod 1000000000"
    by (simp add: sdiv_mult_smod_eq)
  then have "real_of_int d = real_of_int (d sdiv 1000000000) * 1000000000
                + real_of_int (d smod 1000000000)"
    by (metis of_int_add of_int_mult of_int_numeral)
  then show ?thesis by (simp add: Seconds_def field_simps)
qed

lemma emit_length:
  "length (snd (emit w sz (u, out))) = Suc (length out)"
  by (simp add: emit_def Let_def)

lemma emit_funpow_length:
  "length (snd ((emit w sz ^^ n) st)) = n + length (snd st)"
proof (induction n)
  case 0
  then show ?case by simp
next
  case (Suc n)
  obtain u out where e: "(emit w sz ^^ n) st = (u, out)" by (cases "(emit w sz ^^ n) st")
  then show ?case using Suc emit_length[of w sz u out] by simp
qed

lemma emit_fold_length:
  "length (snd (fold (\<lambda>sz. emit w sz ^^ n) szs st)) = n * length szs + length (snd st)"
  by (induction szs arbitrary: st) (simp_all add: emit_funpow_length)

lemma producer_length:
  assumes "producer w u = map Send urls @ [Close]"
  shows "length urls = 40"
proof -
  have "length (snd (fold (\<lambda>sz. emit w sz ^^ duplicateDownloads) downloadSizes (u, [])))
          = duplicateDownloads * length downloadSizes + length (snd (u, []::string list))"
    by (rule emit_fold_length)
  also have "\<dots> = 40" by (simp add: duplicateDownloads_def downloadSizes_def)
  finally have "length (producer w u) = 41"
    by (simp add: producer_def)
  then show ?thesis using assms by simp
qed

lemma run_append:
  "run w (xs @ ys) s = (case run w xs s of None \<Rightarrow> None | Some s' \<Rightarrow> run w ys s')"
  by (induction xs arbitrary: s) (auto split: option.splits)

lemma run_first_consumer:
  assumes "consumers s = Receiving # cs" and "ch s = map Send us @ [Close]"
  shows "\<exists>s'. run w (concat (replicate (length us) [Receive 0, Accumulate 0])) s = Some s' \<and>
              consumers s' = Receiving # cs \<and> ch s' = [Close]"
  using assms
proof (induction us arbitrary: s)
  case Nil
  then show ?case by simp
next
  case (Cons x xs)
  obtain b d e where f: "fetchHttp (downloadFetch w (requests s) x) = (b, d, e)"
    by (cases "fetchHttp (downloadFetch w (requests s) x)") auto
  let ?s1 = "s\<lparr>ch := map Send xs @ [Close], requests := requests s + 1,
               consumers := Fetched b d # cs\<rparr>"
  let ?s2 = "?s1\<lparr>totalBytes := totalBytes ?s1 + real (length b),
               totalDur := dur_add (totalDur ?s1) d, consumers := Receiving # cs\<rparr>"
  have 1: "step w (Receive 0) s = Some ?s1" using Cons.prems f by simp
  have 2: "step w (Accumulate 0) ?s1 = Some ?s2" by simp
  have "consumers ?s2 = Receiving # cs" "ch ?s2 = map Send xs @ [Close]" by simp_all
  from Cons.IH[OF this] obtain s' where
    "run w (concat (replicate (length xs) [Receive 0, Accumulate 0])) ?s2 = Some s'"
    "consumers s' = Receiving # cs" "ch s' = [Close]" by blast
  then show ?case using 1 2 by simp
qed

lemma run_leave:
  assumes "ch s = [Close]" and "consumers s = replicate k Exited @ replicate m Receiving"
  shows "\<exists>s'. run w (map Receive [k..<k + m]) s = Some s' \<and>
              consumers s' = replicate (k + m) Exited"
  using assms
proof (induction m arbitrary: k s)
  case 0
  then show ?case by simp
next
  case (Suc m)
  let ?s1 = "s\<lparr>consumers := replicate (Suc k) Exited @ replicate m Receiving\<rparr>"
  have upd: "(replicate k Exited @ replicate (Suc m) Receiving)[k := Exited]
               = replicate (Suc k) Exited @ replicate m Receiving"
    by (simp add: list_update_append replicate_append_same)
  have nth: "(replicate k Exited @ replicate (Suc m) Receiving) ! k = Receiving"
    by (simp add: nth_append)
  have 1: "step w (Receive k) s = Some ?s1"
    using Suc.prems upd nth by simp
  have "ch ?s1 = [Close]" "consumers ?s1 = replicate (Suc k) Exited @ replicate m Receiving"
    using Suc.prems by simp_all
  from Suc.IH[OF this] obtain s' where
    r: "run w (map Receive [Suc k..<Suc k + m]) ?s1 = Some s'"
    and c: "consumers s' = replicate (Suc k + m) Exited" by blast
  have "[k..<k + Suc m] = k # [Suc k..<Suc k + m]" by (simp add: upt_conv_Cons)
  then show ?case using 1 r c by simp
qed

text \<open>
  Every pool with at least one consumer has a schedule that runs it to the end: the first
  consumer serves every URL, then the consumers leave one after the other.
\<close>

lemma pool_can_finish:
  assumes "0 < n"
  shows "\<exists>s'. run w (concat (replicate (length us) [Receive 0, Accumulate 0]) @ map Receive [0..<n])
               \<lparr>ch = map Send us @ [Close], requests = 0, consumers = replicate n Receiving,
                totalBytes = 0, totalDur = t0\<rparr> = Some s' \<and> finished s'"
proof -
  let ?s0 = "\<lparr>ch = map Send us @ [Close], requests = 0, consumers = replicate n Receiving,
                totalBytes = 0, totalDur = t0\<rparr>"
  obtain m where n: "n = Suc m" using assms by (cases n) auto
  have "consumers ?s0 = Receiving # replicate m Receiving" "ch ?s0 = map Send us @ [Close]"
    by (simp_all add: n)
  from run_first_consumer[OF this] obtain s1 where
    1: "run w (concat (replicate (length us) [Receive 0, Accumulate 0])) ?s0 = Some s1"
    and c1: "consumers s1 = Receiving # replicate m Receiving" and ch1: "ch s1 = [Close]"
    by blast
  have "consumers s1 = replicate 0 Exited @ replicate n Receiving" using c1 n by simp
  from run_leave[OF ch1 this] obtain s' where
    2: "run w (map Receive [0..<0 + n]) s1 = Some s'" and c: "consumers s' = replicate (0 + n) Exited"
    by blast
  have "finished s'" using c by (simp add: finished_def list_all_iff)
  then show ?thesis using 1 2 by (auto simp: run_append)
qed

text \<open>
  Claim C9. The claim is that a failed download changes neither the accumulated byte count
  nor the accumulated duration. The consumer discards the error of \<^verbatim>\<open>fetchHttp\<close> and adds
  whatever it returned; on failure that is a nil body and \<^verbatim>\<open>time.Since(time.Now())\<close>, the
  time between two readings of the clock. With 1000 bytes and 5000000 ns accumulated, a
  download that fails while the clock advances by 1 ns between the two readings leaves
  the byte count at 1000 and moves the duration to 5000001 ns. The request is not
  retried and the consumer goes on to receive the next URL.
\<close>

theorem failed_download_adds_duration:
  "run refusing_world [Receive 2, Accumulate 2]
     \<lparr>ch = [Send ''http://A.example.com/speedtest/random4000x4000.jpg'', Close], requests = 39,
      consumers = [Receiving, Receiving, Receiving, Receiving, Receiving, Receiving],
      totalBytes = 1000, totalDur = 5000000\<rparr>
   = Some \<lparr>ch = [Close], requests = 40,
           consumers = [Receiving, Receiving, Receiving, Receiving, Receiving, Receiving],
           totalBytes = 1000, totalDur = 5000001\<rparr>"
  by (simp add: refusing_world_def serving_def failed_fetch_def fetchHttp_def dur_add_def wrap64_id)

text \<open>
  For every number \<open>n > 0\<close> of consumers and every schedule that runs the pool until
  \<^verbatim>\<open>wg.Wait()\<close> returns, \<^verbatim>\<open>downloadSpeed\<close> has made 40 requests and returns the sum of the
  bytes of all bodies, divided by the seconds of the accumulated duration, divided by
  131072. The accumulated duration is the sum of the durations that the 40 calls of
  \<^verbatim>\<open>fetchHttp\<close> returned plus the value \<^verbatim>\<open>downloadSinceNow\<close> that \<^verbatim>\<open>time.Since(time.Now())\<close>
  gave the accumulator at the start. Durations are taken to be non-negative and their sum
  below \<open>2^63\<close> ns.
\<close>

lemma downloadSpeedWith_aggregate:
  assumes "urlParse w (Url server) = Inr u"
      and "producer w u = map Send urls @ [Close]"
      and "0 < n"
      and "downloadSpeedWith n w sched server = Some (Inr mbps)"
      and "0 \<le> downloadSinceNow w"
      and "\<forall>j<length urls. 0 \<le> fst (snd (got w urls j))"
      and "downloadSinceNow w + (\<Sum>j<length urls. fst (snd (got w urls j))) < 2 ^ 63"
  shows "length urls = 40 \<and>
         mbps = (\<Sum>j<length urls. real (length (fst (got w urls j))))
                / (real_of_int (downloadSinceNow w + (\<Sum>j<length urls. fst (snd (got w urls j))))
                   / 1000000000)
                / 131072"
proof -
  let ?s0 = "\<lparr>ch = map Send urls @ [Close], requests = 0,
            consumers = replicate n Receiving, totalBytes = 0, totalDur = downloadSinceNow w\<rparr>"
  from assms(1,2,4) obtain s where r: "run w sched ?s0 = Some s" and f: "finished s"
    and m: "mbps = megaBitsPerSecond s"
    by (auto simp: downloadSpeedWith_def split: option.splits if_splits)
  from run_inv[OF assms(6,7) inv_init[OF assms(5)] r]
  have i: "inv w urls (downloadSinceNow w) s" and l: "length (consumers s) = n" by auto
  have ne: "consumers s \<noteq> []" using l assms(3) by auto
  from inv_finished[OF i f ne] m show ?thesis
    by (simp add: megaBitsPerSecond_def Seconds_real bytesPerMegabit_def producer_length[OF assms(2)])
qed

text \<open>
  Claim C4. The claim is that \<^verbatim>\<open>downloadSpeed\<close> returns the total of the bytes over the total
  of the seconds of the downloads, over 131072, and that a fetcher returning N bytes after
  D on each of the 40 requests gives (40 N / 40 D) / 131072 whatever the number of
  workers. The accumulator of the durations does not start at zero but at
  \<^verbatim>\<open>time.Since(time.Now())\<close>. With the 6 consumers of the program, every download returning
  1000 bytes after one second and that reading being 1 ns, the result is 40000 bytes over
  40.000000001 seconds, over 131072, and not the value of the claim.
\<close>

theorem downloadSpeed_initial_reading:
  "downloadSpeed (steady_world 1)
     (concat (replicate 40 [Receive 0, Accumulate 0]) @ map Receive [0..<6])
     (server_at ''A'' 0 1)
     = Some (Inr (40000 / (40000000001 / 1000000000) / 131072))
   \<and> (40000 / (40000000001 / 1000000000) / 131072 :: real) \<noteq> (40 * 1000 / (40 * 1)) / 131072"
proof -
  let ?w = "steady_world 1"
  let ?u = "\<lparr>Scheme = ''http'', URL_Host = ''A.example.com'', Path = ''/speedtest/upload.php'',
             RawQuery = [], Fragment = []\<rparr>"
  let ?urls = "snd (fold (\<lambda>sz. emit ?w sz ^^ duplicateDownloads) downloadSizes (?u, []))"
  let ?sched = "concat (replicate 40 [Receive 0, Accumulate 0]) @ map Receive [0..<6]"
  have p: "urlParse ?w (Url (server_at ''A'' 0 1)) = Inr ?u"
    by (simp add: steady_world_def serving_def server_at_def)
  have pr: "producer ?w ?u = map Send ?urls @ [Close]" by (simp add: producer_def)
  have len: "length ?urls = 40" using pr by (rule producer_length)
  have g: "\<And>j. got ?w ?urls j = (replicate 1000 CHR ''x'', 1000000000, None)"
    by (simp add: got_def steady_world_def fetchHttp_def ok_fetch_def)
  have t0: "downloadSinceNow ?w = 1" by (simp add: steady_world_def)
  have "\<exists>s'. run ?w (concat (replicate (length ?urls) [Receive 0, Accumulate 0]) @ map Receive [0..<6])
               \<lparr>ch = map Send ?urls @ [Close], requests = 0, consumers = replicate 6 Receiving,
                totalBytes = 0, totalDur = downloadSinceNow ?w\<rparr> = Some s' \<and> finished s'"
    by (rule pool_can_finish) simp
  then obtain s' where r: "run ?w ?sched
               \<lparr>ch = map Send ?urls @ [Close], requests = 0, consumers = replicate 6 Receiving,
                totalBytes = 0, totalDur = downloadSinceNow ?w\<rparr> = Some s'" and e: "finished s'"
    unfolding len by blast
  have d: "downloadSpeedWith 6 ?w ?sched (server_at ''A'' 0 1) = Some (Inr (megaBitsPerSecond s'))"
    using r e p pr by (simp add: downloadSpeedWith_def)
  have "megaBitsPerSecond s' = (\<Sum>j<length ?urls. real (length (fst (got ?w ?urls j))))
                / (real_of_int (downloadSinceNow ?w + (\<Sum>j<length ?urls. fst (snd (got ?w ?urls j))))
                   / 1000000000)
                / 131072"
    using downloadSpeedWith_aggregate[OF p pr _ d] by (simp add: g t0 len)
  then have "megaBitsPerSecond s' = 40000 / (40000000001 / 1000000000) / 131072"
    by (simp add: g t0 len)
  with d show ?thesis by (simp add: downloadSpeed_def concurrentDownloads_def)
qed

end
